theory Spec2Isabelle
  imports Complex_Main "HOL-Library.Word" "HOL-Library.Log_Nat"
begin

unbundle bit_operations_syntax

section \<open>Shared data model (pkg/sftp)\<close>

text \<open>
  Go's \<open>int64\<close> is a 64-bit word: \<open>+\<close> wraps, \<open>sint\<close> reads the signed value.
  An \<open>error\<close> value is represented by its message (\<open>err.Error()\<close>); \<open>nil\<close> is
  \<open>None\<close> of \<open>error option\<close>.
\<close>

type_synonym int64 = "64 word"
type_synonym error = string

text \<open>\<open>FileJob\<close> of directory_scanner.go.\<close>

record FileJob =
  Path :: string
  AbsPath :: string
  DestPath :: string
  Size :: int64
  IsDir :: bool
  IsRecursive :: bool

section \<open>Directory scanner (pkg/sftp/directory_scanner.go)\<close>

text \<open>
  The path functions of the standard library (\<open>filepath.Dir\<close>, \<open>filepath.Rel\<close>,
  \<open>filepath.Join\<close>) are parameters of the model.
\<close>

record pathops =
  fp_Dir :: "string \<Rightarrow> string"
  fp_Rel :: "string \<Rightarrow> string \<Rightarrow> string"
  fp_Join :: "string \<Rightarrow> string \<Rightarrow> string"

text \<open>
  What \<open>filepath.Walk\<close> hands to the callback of \<open>ScanLocal\<close> for one entry: the
  path, the \<open>Lstat\<close> information, the error of the walk, and, read by the callback
  itself, \<open>ctx.Err()\<close> at that moment and (for a symlink) where the link leads
  (\<open>filepath.EvalSymlinks\<close> followed by \<open>os.Stat\<close>).
\<close>

datatype link_target = LinkBroken | LinkToDir | LinkToFile

record local_entry =
  le_path :: string
  le_size :: int64
  le_isDir :: bool
  le_symlink :: bool
  le_target :: link_target
  le_walkErr :: "error option"
  le_ctxErr :: "error option"

text \<open>The three results of a scan, and the counts handed to \<open>onProgress\<close>, in order.\<close>

record scan_result =
  sr_jobs :: "FileJob list"
  sr_totalSize :: int64
  sr_err :: "error option"
  sr_progress :: "nat list"

definition mkJob :: "string \<Rightarrow> string \<Rightarrow> string \<Rightarrow> int64 \<Rightarrow> bool \<Rightarrow> FileJob" where
  "mkJob rel p dst sz d =
     \<lparr>Path = rel, AbsPath = p, DestPath = dst, Size = sz, IsDir = d, IsRecursive = False\<rparr>"

text \<open>
  The callback of \<open>filepath.Walk\<close> in \<open>ScanLocal\<close>, run over the entries of the walk.
  A non-nil return of the callback ends the walk with that error; \<open>return nil\<close> goes on
  with the next entry. \<open>hasCb\<close> is \<open>onProgress != nil\<close>.
\<close>

fun scanLocalWalk ::
  "pathops \<Rightarrow> string \<Rightarrow> string \<Rightarrow> bool \<Rightarrow> local_entry list \<Rightarrow> scan_result \<Rightarrow> scan_result"
where
  "scanLocalWalk ops baseDir remoteRoot hasCb [] acc = acc"
| "scanLocalWalk ops baseDir remoteRoot hasCb (e # es) acc =
     (case le_walkErr e of
        Some err \<Rightarrow> acc\<lparr>sr_err := Some err\<rparr>
      | None \<Rightarrow>
        (case le_ctxErr e of
           Some err \<Rightarrow> acc\<lparr>sr_err := Some err\<rparr>
         | None \<Rightarrow>
           if le_symlink e \<and> le_target e \<noteq> LinkToFile
           then scanLocalWalk ops baseDir remoteRoot hasCb es acc
           else
             let relPath = fp_Rel ops baseDir (le_path e);
                 destPath = fp_Join ops remoteRoot relPath;
                 jobs = sr_jobs acc @ [mkJob relPath (le_path e) destPath (le_size e) (le_isDir e)];
                 total = (if \<not> le_isDir e then sr_totalSize acc + le_size e else sr_totalSize acc);
                 calls = (if hasCb \<and> length jobs mod 100 = 0
                          then sr_progress acc @ [length jobs] else sr_progress acc)
             in scanLocalWalk ops baseDir remoteRoot hasCb es
                  (acc\<lparr>sr_jobs := jobs, sr_totalSize := total, sr_progress := calls\<rparr>)))"

definition scan_empty :: scan_result where
  "scan_empty = \<lparr>sr_jobs = [], sr_totalSize = 0, sr_err = None, sr_progress = []\<rparr>"

text \<open>
  \<open>ScanLocal\<close>: \<open>rootStat\<close> is the error of \<open>os.Stat(root)\<close>, \<open>entries\<close> the walk
  of \<open>root\<close>.
\<close>

definition ScanLocal ::
  "pathops \<Rightarrow> error option \<Rightarrow> string \<Rightarrow> string \<Rightarrow> bool \<Rightarrow> local_entry list \<Rightarrow> scan_result"
where
  "ScanLocal ops rootStat rootPath remoteRoot hasCb entries =
     (case rootStat of
        Some err \<Rightarrow> scan_empty\<lparr>sr_err := Some err\<rparr>
      | None \<Rightarrow> scanLocalWalk ops (fp_Dir ops rootPath) remoteRoot hasCb entries scan_empty)"

text \<open>
  One step of the SFTP walker in \<open>ScanRemote\<close>: \<open>walker.Err()\<close>, \<open>ctx.Err()\<close>,
  \<open>walker.Path()\<close> and \<open>walker.Stat()\<close>.
\<close>

record remote_entry =
  re_path :: string
  re_size :: int64
  re_isDir :: bool
  re_walkErr :: "error option"
  re_ctxErr :: "error option"

fun scanRemoteLoop ::
  "pathops \<Rightarrow> string \<Rightarrow> string \<Rightarrow> bool \<Rightarrow> remote_entry list \<Rightarrow> scan_result \<Rightarrow> scan_result"
where
  "scanRemoteLoop ops baseDir localRoot hasCb [] acc = acc"
| "scanRemoteLoop ops baseDir localRoot hasCb (e # es) acc =
     (case re_walkErr e of
        Some err \<Rightarrow> scanRemoteLoop ops baseDir localRoot hasCb es acc
      | None \<Rightarrow>
        (case re_ctxErr e of
           Some err \<Rightarrow> \<lparr>sr_jobs = [], sr_totalSize = 0, sr_err = Some err,
                        sr_progress = sr_progress acc\<rparr>
         | None \<Rightarrow>
             let relPath = fp_Rel ops baseDir (re_path e);
                 destPath = fp_Join ops localRoot relPath;
                 jobs = sr_jobs acc @ [mkJob relPath (re_path e) destPath (re_size e) (re_isDir e)];
                 total = (if \<not> re_isDir e then sr_totalSize acc + re_size e else sr_totalSize acc);
                 calls = (if hasCb \<and> length jobs mod 100 = 0
                          then sr_progress acc @ [length jobs] else sr_progress acc)
             in scanRemoteLoop ops baseDir localRoot hasCb es
                  (acc\<lparr>sr_jobs := jobs, sr_totalSize := total, sr_progress := calls\<rparr>)))"

definition ScanRemote ::
  "pathops \<Rightarrow> string \<Rightarrow> string \<Rightarrow> bool \<Rightarrow> remote_entry list \<Rightarrow> scan_result"
where
  "ScanRemote ops rootPath localRoot hasCb entries =
     scanRemoteLoop ops (fp_Dir ops rootPath) localRoot hasCb entries scan_empty"

text \<open>The sum the scanners are compared with: \<open>Size\<close> over the jobs that are not directories.\<close>

definition fileBytes :: "FileJob list \<Rightarrow> int64" where
  "fileBytes jobs = sum_list (map Size (filter (\<lambda>j. \<not> IsDir j) jobs))"

section \<open>Formatting helpers\<close>

text \<open>\<open>%d\<close> of \<open>fmt.Sprintf\<close>: the decimal digits of an integer.\<close>

function showNat :: "nat \<Rightarrow> string" where
  "showNat n =
     (if n < 10 then [''0123456789'' ! n]
      else showNat (n div 10) @ [''0123456789'' ! (n mod 10)])"
  by pat_completeness auto
termination
  by (relation "measure id") auto

declare showNat.simps [simp del]

definition showInt :: "int \<Rightarrow> string" where
  "showInt i = (if i < 0 then CHR ''-'' # showNat (nat (- i)) else showNat (nat i))"

text \<open>\<open>filepath.ToSlash\<close> on Windows: every backslash becomes a slash.\<close>

definition ToSlash :: "string \<Rightarrow> string" where
  "ToSlash s = map (\<lambda>c. if c = CHR 0x5C then CHR ''/'' else c) s"

section \<open>Transfer engines (TransferEngine, RsyncEngine, InternalEngine)\<close>

text \<open>\<open>ssh.SSHConfig\<close> and the one field of \<open>storage.Settings\<close> the engine reads.\<close>

record SSHConfig =
  Host :: string
  Port :: int
  Username :: string
  Password :: string
  PrivateKey :: string
  KeyContent :: "8 word list"
  KeyPassword :: string

record Settings =
  DisableRsync :: bool

text \<open>The two implementations of the \<open>TransferEngine\<close> interface.\<close>

datatype TransferEngine = RsyncEngine | InternalEngine

text \<open>
  \<open>NewTransferEngine\<close>: \<open>lookErr\<close> is the error of \<open>exec.LookPath("rsync")\<close>.
\<close>

definition NewTransferEngine :: "Settings \<Rightarrow> error option \<Rightarrow> TransferEngine" where
  "NewTransferEngine st lookErr =
     (if \<not> DisableRsync st
      then (if lookErr = None then RsyncEngine else InternalEngine)
      else InternalEngine)"

text \<open>
  What an engine or an executor asks of the outside world: an \<open>rsync\<close> process with its
  argument vector, a copy through the SFTP client (\<open>Client.Upload\<close>,
  \<open>Client.Download\<close>: source path, destination path), or the creation of a directory.
\<close>

datatype engine_call =
    RsyncCmd "string list"
  | SftpUpload string string
  | SftpDownload string string
  | RemoteMkdirAll string
  | LocalMkdirAll string

text \<open>
  The results of the operating-system calls of \<open>runRsync\<close>: \<open>os.CreateTemp\<close> (an
  error, or the name of the file), \<open>os.Chmod\<close>, the write of the key,
  \<open>runtime.GOOS == "windows"\<close>, \<open>cmd.StdoutPipe\<close> and \<open>cmd.Start\<close>.
\<close>

record osres =
  createTemp :: "error + string"
  chmodErr :: "error option"
  writeErr :: "error option"
  goosWindows :: bool
  pipeErr :: "error option"
  startErr :: "error option"

text \<open>
  \<open>runRsync\<close> up to \<open>cmd.Start\<close>: \<open>Inl\<close> is an error returned before the process
  runs, \<open>Inr\<close> the argument vector of the process that was started (the function then
  returns what \<open>cmd.Wait\<close> returns).
\<close>

definition rsyncKeyPath :: "SSHConfig \<Rightarrow> osres \<Rightarrow> error + string" where
  "rsyncKeyPath cfg os =
     (if 0 < length (KeyContent cfg) then
        (case createTemp os of
           Inl e \<Rightarrow> Inl (''temp key creation failed: '' @ e)
         | Inr tmpName \<Rightarrow>
           (case chmodErr os of
              Some e \<Rightarrow> Inl (''failed to set temp key permissions: '' @ e)
            | None \<Rightarrow>
              (case writeErr os of
                 Some e \<Rightarrow> Inl (''temp key write failed: '' @ e)
               | None \<Rightarrow> Inr tmpName)))
      else Inr (PrivateKey cfg))"

definition sshOpts :: "SSHConfig \<Rightarrow> osres \<Rightarrow> string \<Rightarrow> string" where
  "sshOpts cfg os keyPath =
     (if goosWindows os
      then ''ssh -p '' @ showInt (Port cfg) @ '' -i '' @ [CHR 0x22] @ ToSlash keyPath @ [CHR 0x22]
             @ '' -o StrictHostKeyChecking=no''
      else ''ssh -p '' @ showInt (Port cfg) @ '' -i '' @ [CHR 0x27] @ keyPath @ [CHR 0x27]
             @ '' -o StrictHostKeyChecking=no'')"

definition remoteSpec :: "SSHConfig \<Rightarrow> string \<Rightarrow> string" where
  "remoteSpec cfg p = Username cfg @ ''@'' @ Host cfg @ '':'' @ p"

definition runRsync :: "SSHConfig \<Rightarrow> osres \<Rightarrow> string \<Rightarrow> string \<Rightarrow> bool \<Rightarrow> error + string list" where
  "runRsync cfg os src dest upload =
     (case rsyncKeyPath cfg os of
        Inl e \<Rightarrow> Inl e
      | Inr keyPath \<Rightarrow>
        let source = (if upload then (if goosWindows os then ToSlash src else src)
                      else remoteSpec cfg src);
            destination = (if upload then remoteSpec cfg dest
                           else (if goosWindows os then ToSlash dest else dest))
        in (case pipeErr os of
              Some e \<Rightarrow> Inl e
            | None \<Rightarrow>
              (case startErr os of
                 Some e \<Rightarrow> Inl e
               | None \<Rightarrow>
                 Inr [''rsync'', ''-avz'', ''--info=progress2'', ''-e'', sshOpts cfg os keyPath,
                      source, destination])))"

text \<open>
  \<open>UploadFile\<close> and \<open>DownloadFile\<close> of the two engines: the call each makes, or the
  error it returns before making one.
\<close>

fun engine_UploadFile ::
  "TransferEngine \<Rightarrow> SSHConfig \<Rightarrow> osres \<Rightarrow> string \<Rightarrow> string \<Rightarrow> error + engine_call" where
  "engine_UploadFile RsyncEngine cfg os localPath remotePath =
     map_sum id RsyncCmd (runRsync cfg os localPath remotePath True)"
| "engine_UploadFile InternalEngine cfg os localPath remotePath =
     Inr (SftpUpload localPath remotePath)"

fun engine_DownloadFile ::
  "TransferEngine \<Rightarrow> SSHConfig \<Rightarrow> osres \<Rightarrow> string \<Rightarrow> string \<Rightarrow> error + engine_call" where
  "engine_DownloadFile RsyncEngine cfg os remotePath localPath =
     map_sum id RsyncCmd (runRsync cfg os remotePath localPath False)"
| "engine_DownloadFile InternalEngine cfg os remotePath localPath =
     Inr (SftpDownload remotePath localPath)"

section \<open>Tasks and progress snapshots (pkg/sftp/task_queue.go)\<close>

text \<open>
  \<open>TaskType\<close> and \<open>TaskState\<close> are Go integers with named constants;
  \<open>TaskTypeOther\<close> stands for every value of \<open>TaskType\<close> that is none of the four
  constants (the \<open>default\<close> branch of the scanning switch).
\<close>

datatype TaskType =
  TaskUploadFile | TaskUploadDirectory | TaskDownloadFile | TaskDownloadDirectory | TaskTypeOther

datatype TaskState =
  TaskPending | TaskScanning | TaskTransferring | TaskCompleted | TaskFailed | TaskCancelled

text \<open>
  \<open>TaskProgress\<close>. Its field \<open>State\<close> is \<open>PState\<close> here (the name is taken by the
  task's own field). Go's \<open>int\<close> has 64 bits on the platforms the program is built for:
  the identifiers (\<open>TaskID\<close>, \<open>ID\<close>, \<open>nextID\<close>) and \<open>maxTasks\<close> are 64-bit words;
  the file counts and the percentage, which are lengths of slices held in memory and a
  value converted from a \<open>float64\<close>, are integers. A \<open>float64\<close> is the real number
  it denotes, every operation rounding its result (\<open>float64\<close> below), and a
  \<open>time.Time\<close> is a real number of seconds; the zero time is \<open>None\<close>.
\<close>

record TaskProgress =
  TaskID :: int64
  PState :: TaskState
  TotalFiles :: int
  CompletedFiles :: int
  FailedFiles :: int
  BytesTransferred :: int64
  TotalSize :: int64
  CurrentSpeed :: real
  Percentage :: int
  LastLog :: string
  Error :: string

text \<open>
  \<open>Task\<close>. \<open>ctxCancelled\<close> is \<open>task.ctx.Err() != nil\<close>; the fields \<open>jobs\<close> and
  \<open>err\<close> are \<open>taskJobs\<close> and \<open>taskErr\<close>.
\<close>

record Task =
  ID :: int64
  Type :: TaskType
  Source :: string
  Dest :: string
  Name :: string
  State :: TaskState
  Progress :: TaskProgress
  ctxCancelled :: bool
  taskJobs :: "FileJob list"
  totalSize :: int64
  totalFiles :: int
  lastBytes :: int64
  lastCheck :: "real option"
  taskErr :: "error option"

definition zeroProgress :: TaskProgress where
  "zeroProgress = \<lparr>TaskID = 0, PState = TaskPending, TotalFiles = 0, CompletedFiles = 0,
     FailedFiles = 0, BytesTransferred = 0, TotalSize = 0, CurrentSpeed = 0, Percentage = 0,
     LastLog = [], Error = []\<rparr>"

text \<open>The task that \<open>QueueTask\<close> allocates.\<close>

definition newTask :: "int64 \<Rightarrow> TaskType \<Rightarrow> string \<Rightarrow> string \<Rightarrow> string \<Rightarrow> Task" where
  "newTask i ty src dst nm =
     \<lparr>ID = i, Type = ty, Source = src, Dest = dst, Name = nm, State = TaskPending,
      Progress = zeroProgress, ctxCancelled = False, taskJobs = [], totalSize = 0,
      totalFiles = 0, lastBytes = 0, lastCheck = None, taskErr = None\<rparr>"

text \<open>A buffered channel: its buffer and its capacity.\<close>

record 'a chan =
  buf :: "'a list"
  cap :: nat

definition hasRoom :: "'a chan \<Rightarrow> bool" where
  "hasRoom c = (length (buf c) < cap c)"

definition push :: "'a \<Rightarrow> 'a chan \<Rightarrow> 'a chan" where
  "push x c = c\<lparr>buf := buf c @ [x]\<rparr>"

text \<open>
  Arithmetic on \<open>float64\<close> (IEEE 754 binary64, round to nearest, ties to even).
  \<open>pow2 e\<close> is \<open>2^e\<close>; \<open>expo x\<close>, for \<open>x > 0\<close>, is the exponent \<open>e\<close> with
  \<open>2^e \<le> x < 2^(e+1)\<close>; \<open>ulp a\<close> is the distance between neighbouring values of
  the format around \<open>a\<close> (53 significant bits; exponents below \<open>-1022\<close> are
  subnormal). \<open>float64 x\<close> is the value of the format nearest to \<open>x\<close>: the result of
  a conversion \<open>float64(n)\<close>, and of \<open>/\<close> and \<open>*\<close> applied to the exact quotient
  and product. (Magnitudes of \<open>2^1024\<close> and more, which round to an infinity, do not
  arise from the 64-bit integers converted here.)
\<close>

definition pow2 :: "int \<Rightarrow> real" where
  "pow2 e = (if 0 \<le> e then 2 ^ nat e else 1 / 2 ^ nat (- e))"

definition expo :: "real \<Rightarrow> int" where
  "expo x = (if 1 \<le> x then bitlen \<lfloor>x\<rfloor> - 1 else - bitlen (\<lceil>1 / x\<rceil> - 1))"

definition roundEven :: "real \<Rightarrow> int" where
  "roundEven x =
     (let f = \<lfloor>x\<rfloor>; d = x - of_int f in
      if d < 1 / 2 then f else if 1 / 2 < d then f + 1 else if even f then f else f + 1)"

definition ulp :: "real \<Rightarrow> real" where
  "ulp a = pow2 (max (expo a) (- 1022) - 52)"

definition float64 :: "real \<Rightarrow> real" where
  "float64 x =
     (if x = 0 then 0
      else sgn x * (of_int (roundEven (\<bar>x\<bar> / ulp \<bar>x\<bar>)) * ulp \<bar>x\<bar>))"

text \<open>
  The conversion \<open>int(f)\<close> truncates towards zero; for a value that does not fit in 64
  bits the result depends on the platform, and is \<open>-2^63\<close> on amd64.
\<close>

definition truncInt :: "real \<Rightarrow> int" where
  "truncInt r =
     (if r < - (2 ^ 63) \<or> 2 ^ 63 \<le> r then - (2 ^ 63) else if 0 \<le> r then \<lfloor>r\<rfloor> else \<lceil>r\<rceil>)"

text \<open>\<open>int((float64(b) / float64(t)) * 100)\<close>.\<close>

definition percentOf :: "int64 \<Rightarrow> int64 \<Rightarrow> int" where
  "percentOf b t =
     truncInt (float64 (float64 (float64 (real_of_int (sint b)) / float64 (real_of_int (sint t))) * 100))"

text \<open>
  The first part of \<open>notify\<close>: the snapshot built from the task (\<open>prog\<close> before the
  speed is filled in).
\<close>

definition buildProgress :: "Task \<Rightarrow> TaskProgress" where
  "buildProgress task =
     (let prog = \<lparr>TaskID = ID task, PState = State task, TotalFiles = totalFiles task,
                   CompletedFiles = CompletedFiles (Progress task), FailedFiles = 0,
                   BytesTransferred = BytesTransferred (Progress task),
                   TotalSize = totalSize task, CurrentSpeed = 0, Percentage = 0,
                   LastLog = [], Error = []\<rparr>;
          prog = (case taskErr task of Some e \<Rightarrow> prog\<lparr>Error := e\<rparr> | None \<Rightarrow> prog);
          prog = (if 0 <s TotalSize prog
                  then prog\<lparr>Percentage := percentOf (BytesTransferred prog) (TotalSize prog)\<rparr>
                  else prog)
      in prog)"

text \<open>
  The second part of \<open>notify\<close>: the speed, computed at the time \<open>now\<close>; it updates
  \<open>lastBytes\<close>, \<open>lastCheck\<close> and \<open>Progress.CurrentSpeed\<close> of the task.
  \<open>duration\<close> stands for the \<open>float64\<close> that \<open>Seconds()\<close> returns.
\<close>

definition notifyTask :: "real \<Rightarrow> Task \<Rightarrow> Task \<times> TaskProgress" where
  "notifyTask now task =
     (let prog = buildProgress task;
          (task, prog) =
            (case lastCheck task of
               Some lc \<Rightarrow>
                 let duration = now - lc in
                 if 1 \<le> duration then
                   let bytesDelta = BytesTransferred prog - lastBytes task;
                       prog = (if 0 \<le>s bytesDelta
                               then prog\<lparr>CurrentSpeed :=
                                      float64 (float64 (real_of_int (sint bytesDelta)) / duration)\<rparr>
                               else prog)
                   in (task\<lparr>lastBytes := BytesTransferred prog, lastCheck := Some now\<rparr>, prog)
                 else (task, prog\<lparr>CurrentSpeed := CurrentSpeed (Progress task)\<rparr>)
             | None \<Rightarrow> (task\<lparr>lastCheck := Some now, lastBytes := BytesTransferred prog\<rparr>, prog))
      in (task\<lparr>Progress := (Progress task)\<lparr>CurrentSpeed := CurrentSpeed prog\<rparr>\<rparr>, prog))"

text \<open>
  \<open>notify\<close> on the task and the out-channel: the \<open>select\<close> with a \<open>default\<close>
  branch sends the snapshot when the channel has room and drops it otherwise. (A receiver
  that is already waiting counts as room.)
\<close>

definition notify :: "real \<Rightarrow> Task \<times> TaskProgress chan \<Rightarrow> Task \<times> TaskProgress chan" where
  "notify now tc =
     (let (task, prog) = notifyTask now (fst tc)
      in (task, if hasRoom (snd tc) then push prog (snd tc) else snd tc))"

section \<open>The task queue: QueueTask, CancelAllTasks, UpdateSettings\<close>

text \<open>
  \<open>TaskQueue\<close>. A \<open>*Task\<close> is the position of the task in \<open>tasks\<close> (tasks are only
  ever appended); \<open>taskChan\<close> holds such pointers.
\<close>

record TaskQueue =
  settings :: Settings
  maxTasks :: int64
  tasks :: "Task list"
  taskChan :: "nat chan"
  updateChan :: "TaskProgress chan"
  nextID :: int64

text \<open>
  \<open>NewTaskQueue\<close>. The capacity \<open>maxTasks*2\<close> is computed in 64 bits and wraps;
  \<open>make(chan *Task, n)\<close> panics when \<open>n\<close> is negative or the buffer of \<open>n\<close>
  pointers of 8 bytes, with the 96-byte header of a channel, exceeds what the runtime can
  allocate (\<open>maxAlloc\<close>, \<open>2^48\<close> bytes on linux/amd64). \<open>Inl\<close> is the panic.
\<close>

definition maxAlloc :: int where
  "maxAlloc = 2 ^ 48"

definition NewTaskQueue :: "Settings \<Rightarrow> int64 \<Rightarrow> TaskProgress chan \<Rightarrow> error + TaskQueue" where
  "NewTaskQueue st mt uc =
     (let mt = (if mt \<le>s 0 then 5 else mt); n = mt * 2
      in if n <s 0 \<or> maxAlloc - 96 < 8 * sint n
         then Inl ''makechan: size out of range''
         else Inr \<lparr>settings = st, maxTasks = mt, tasks = [],
                   taskChan = \<lparr>buf = [], cap = nat (sint n)\<rparr>, updateChan = uc, nextID = 1\<rparr>)"

definition UpdateSettings :: "Settings \<Rightarrow> TaskQueue \<Rightarrow> TaskQueue" where
  "UpdateSettings st q = q\<lparr>settings := st\<rparr>"

text \<open>
  \<open>QueueTask\<close> at the time \<open>now\<close>: the new queue, the returned task pointer
  (\<open>None\<close> is \<open>nil\<close>) and the returned error.
\<close>

definition QueueTask ::
  "real \<Rightarrow> TaskType \<Rightarrow> string \<Rightarrow> string \<Rightarrow> string \<Rightarrow> TaskQueue
     \<Rightarrow> TaskQueue \<times> nat option \<times> error option" where
  "QueueTask now ty src dst nm q =
     (let task = newTask (nextID q) ty src dst nm;
          ptr = length (tasks q);
          q = q\<lparr>nextID := nextID q + 1\<rparr>;
          q = q\<lparr>tasks := tasks q @ [task]\<rparr>;
          (task, uc) = notify now (task, updateChan q);
          q = q\<lparr>tasks := (tasks q)[ptr := task], updateChan := uc\<rparr>
      in if hasRoom (taskChan q)
         then (q\<lparr>taskChan := push ptr (taskChan q)\<rparr>, Some ptr, None)
         else (q, None, Some ''task queue full''))"

definition isLive :: "TaskState \<Rightarrow> bool" where
  "isLive st = (st = TaskPending \<or> st = TaskScanning \<or> st = TaskTransferring)"

definition cancelIfLive :: "Task \<Rightarrow> Task" where
  "cancelIfLive t = (if isLive (State t) then t\<lparr>ctxCancelled := True\<rparr> else t)"

definition CancelAllTasks :: "TaskQueue \<Rightarrow> TaskQueue" where
  "CancelAllTasks q = q\<lparr>tasks := map cancelIfLive (tasks q)\<rparr>"

text \<open>The dispatcher takes the next task pointer off the admission channel.\<close>

definition dispatch :: "TaskQueue \<Rightarrow> (nat \<times> TaskQueue) option" where
  "dispatch q =
     (case buf (taskChan q) of
        [] \<Rightarrow> None
      | p # ps \<Rightarrow> Some (p, q\<lparr>taskChan := (taskChan q)\<lparr>buf := ps\<rparr>\<rparr>))"

section \<open>The job executor (TaskQueue.makeExecutor)\<close>

text \<open>
  What the executor built by \<open>makeExecutor\<close> does with one job: the byte count it
  returns, the operation it performs (or the error an engine returns before performing
  one), and whether it hands the engine a callback that sends the engine's output lines
  on the out-channel.
\<close>

definition makeExecutor ::
  "TaskType \<Rightarrow> bool \<Rightarrow> TransferEngine \<Rightarrow> SSHConfig \<Rightarrow> osres \<Rightarrow> FileJob
     \<Rightarrow> int64 \<times> (error + engine_call) \<times> bool" where
  "makeExecutor taskType useRsync engine cfg os job =
     (if taskType = TaskUploadDirectory \<or> taskType = TaskUploadFile then
        (if IsDir job then
           (if useRsync
            then (0, engine_UploadFile engine cfg os (AbsPath job) (DestPath job), True)
            else (0, Inr (RemoteMkdirAll (DestPath job)), False))
         else (Size job, engine_UploadFile engine cfg os (AbsPath job) (DestPath job), False))
      else
        (if IsDir job then
           (if useRsync
            then (0, engine_DownloadFile engine cfg os (AbsPath job) (DestPath job), True)
            else (0, Inr (LocalMkdirAll (DestPath job)), False))
         else (Size job, engine_DownloadFile engine cfg os (AbsPath job) (DestPath job), False)))"

text \<open>
  The pair the executor returns, given the result \<open>r\<close> of the operation it performed.
\<close>

definition executorResult ::
  "int64 \<times> (error + engine_call) \<times> bool \<Rightarrow> error option \<Rightarrow> int64 \<times> error option" where
  "executorResult plan r =
     (fst plan, case fst (snd plan) of Inl e \<Rightarrow> Some e | Inr c \<Rightarrow> r)"

section \<open>The file queue (FileQueue.ProcessJobs)\<close>

text \<open>
  \<open>ProcessJobs\<close> starts one goroutine per job, so it is modelled as a transition
  system: a loop (the caller's goroutine) and the goroutines it has started, each with a
  position in its code. A schedule chooses which of them takes the next step.

  A goroutine is at one of these positions:
  \<^item> \<open>GStart\<close>: started, before its test of \<open>ctx.Err()\<close>;
  \<^item> \<open>GExec\<close>: in the call of the executor;
  \<^item> \<open>GSucc w\<close>: the executor returned \<open>(w, nil)\<close>; before \<open>AddInt64(&filesDone, 1)\<close>;
  \<^item> \<open>GFd w fd\<close>: before \<open>AddInt64(&bytesDone, written)\<close>;
  \<^item> \<open>GCb w fd bd k\<close>: inside \<open>updateFn(int(fd), bd)\<close>, \<open>k\<close> of its writes done;
  \<^item> \<open>GDone o\<close>: returned (semaphore released, \<open>wg.Done\<close>), with what became of the job.
\<close>

datatype outcome = Skipped | Failed error | Succeeded int64

datatype gphase =
  GStart | GExec | GSucc int64 | GFd int64 int | GCb int64 int int64 nat | GDone outcome

record goroutine =
  g_job :: FileJob
  g_phase :: gphase

text \<open>
  The loop is at its head (\<open>LTop\<close>), blocked on the semaphore (\<open>LAcquire\<close>), in
  \<open>wg.Wait()\<close> (\<open>LWait\<close>), or has returned.
\<close>

datatype lphase = LTop | LAcquire | LWait | LReturned "error option"

text \<open>
  The variables of one call of \<open>ProcessJobs\<close>. \<open>pj_execLog\<close>, \<open>pj_errLog\<close> and
  \<open>pj_cbLog\<close> are history variables, read by no transition: what every call of the
  executor returned (goroutine, \<open>written\<close>, \<open>err\<close>), in order; the errors among
  them, in order; and the calls of \<open>updateFn\<close> (goroutine, \<open>fd\<close>, \<open>bd\<close>), in
  order. \<open>filesDone\<close> counts jobs of a slice held in memory and is an unbounded integer
  here.
\<close>

record pj_state =
  pj_jobs :: "FileJob list"
  pj_loop :: lphase
  pj_gos :: "goroutine list"
  pj_firstErr :: "error option"
  pj_filesDone :: int
  pj_bytesDone :: int64
  pj_execLog :: "(nat \<times> int64 \<times> error option) list"
  pj_errLog :: "error list"
  pj_cbLog :: "(nat \<times> int \<times> int64) list"

definition ctxCanceled :: error where
  "ctxCanceled = ''context canceled''"

definition pj_init :: "FileJob list \<Rightarrow> pj_state" where
  "pj_init js = \<lparr>pj_jobs = js, pj_loop = LTop, pj_gos = [], pj_firstErr = None,
     pj_filesDone = 0, pj_bytesDone = 0, pj_execLog = [], pj_errLog = [], pj_cbLog = []\<rparr>"

fun isDone :: "gphase \<Rightarrow> bool" where
  "isDone (GDone out) = True"
| "isDone ph = False"

text \<open>The goroutines that hold the semaphore (and count in the wait group).\<close>

definition active :: "pj_state \<Rightarrow> nat" where
  "active s = length (filter (\<lambda>g. \<not> isDone (g_phase g)) (pj_gos s))"

text \<open>
  One step of the loop. \<open>conc\<close> is the capacity of the semaphore, \<open>cancelled\<close> is
  \<open>ctx.Err() != nil\<close>. \<open>None\<close>: the loop cannot move (it is blocked, or has returned).
\<close>

definition pj_loop_step :: "nat \<Rightarrow> bool \<Rightarrow> pj_state \<Rightarrow> pj_state option" where
  "pj_loop_step conc cancelled s =
     (case pj_loop s of
        LTop \<Rightarrow>
          (case pj_jobs s of
             [] \<Rightarrow> Some (s\<lparr>pj_loop := LWait\<rparr>)
           | j # js \<Rightarrow>
               if pj_firstErr s \<noteq> None then Some (s\<lparr>pj_loop := LWait\<rparr>)
               else if cancelled then Some (s\<lparr>pj_loop := LReturned (Some ctxCanceled)\<rparr>)
               else Some (s\<lparr>pj_loop := LAcquire\<rparr>))
      | LAcquire \<Rightarrow>
          (case pj_jobs s of
             [] \<Rightarrow> None
           | j # js \<Rightarrow>
               if active s < conc
               then Some (s\<lparr>pj_jobs := js, pj_loop := LTop,
                            pj_gos := pj_gos s @ [\<lparr>g_job = j, g_phase = GStart\<rparr>]\<rparr>)
               else None)
      | LWait \<Rightarrow>
          if active s = 0 then Some (s\<lparr>pj_loop := LReturned (pj_firstErr s)\<rparr>) else None
      | LReturned r \<Rightarrow> None)"

definition setPhase :: "nat \<Rightarrow> gphase \<Rightarrow> pj_state \<Rightarrow> pj_state" where
  "setPhase i ph s = s\<lparr>pj_gos := (pj_gos s)[i := (pj_gos s ! i)\<lparr>g_phase := ph\<rparr>]\<rparr>"

text \<open>The return of the executor call of goroutine \<open>i\<close>, recorded.\<close>

definition logExec :: "nat \<Rightarrow> int64 \<Rightarrow> error option \<Rightarrow> pj_state \<Rightarrow> pj_state" where
  "logExec i written err s = s\<lparr>pj_execLog := pj_execLog s @ [(i, written, err)]\<rparr>"

text \<open>\<open>errOnce.Do\<close>: only the first error is stored.\<close>

definition latch :: "error \<Rightarrow> pj_state \<Rightarrow> pj_state" where
  "latch e s =
     s\<lparr>pj_firstErr := (case pj_firstErr s of None \<Rightarrow> Some e | Some e0 \<Rightarrow> Some e0),
       pj_errLog := pj_errLog s @ [e]\<rparr>"

text \<open>
  One step of goroutine \<open>i\<close>. The state \<open>'u\<close> is what the executor and the callback
  act on; \<open>cancelled\<close> is \<open>ctx.Err() != nil\<close>. \<open>exec\<close> is the executor, with
  \<open>inp\<close> what the outside world answers to it. \<open>cb\<close> is \<open>updateFn\<close> (\<open>None\<close> for
  \<open>nil\<close>): the writes it performs, one step each.
\<close>

definition pj_go_step ::
  "bool \<Rightarrow> (FileJob \<Rightarrow> 'r \<Rightarrow> 'u \<Rightarrow> (int64 \<times> error option) \<times> 'u)
     \<Rightarrow> (int \<Rightarrow> int64 \<Rightarrow> ('u \<Rightarrow> 'u) list) option
     \<Rightarrow> nat \<Rightarrow> 'r \<Rightarrow> pj_state \<times> 'u \<Rightarrow> (pj_state \<times> 'u) option" where
  "pj_go_step cancelled exec cb i inp su =
     (let s = fst su; u = snd su in
      if length (pj_gos s) \<le> i then None
      else
        (case g_phase (pj_gos s ! i) of
           GStart \<Rightarrow> Some (setPhase i (if cancelled then GDone Skipped else GExec) s, u)
         | GExec \<Rightarrow>
             (case exec (g_job (pj_gos s ! i)) inp u of
                ((written, Some e), u') \<Rightarrow>
                  Some (setPhase i (GDone (Failed e)) (latch e (logExec i written (Some e) s)), u')
              | ((written, None), u') \<Rightarrow>
                  Some (setPhase i (GSucc written) (logExec i written None s), u'))
         | GSucc w \<Rightarrow>
             Some (setPhase i (GFd w (pj_filesDone s + 1))
                     (s\<lparr>pj_filesDone := pj_filesDone s + 1\<rparr>), u)
         | GFd w fd \<Rightarrow>
             (let bd = pj_bytesDone s + w; s = s\<lparr>pj_bytesDone := bd\<rparr> in
              case cb of
                None \<Rightarrow> Some (setPhase i (GDone (Succeeded w)) s, u)
              | Some f \<Rightarrow>
                  Some (setPhase i (GCb w fd bd 0) (s\<lparr>pj_cbLog := pj_cbLog s @ [(i, fd, bd)]\<rparr>), u))
         | GCb w fd bd k \<Rightarrow>
             (case cb of
                None \<Rightarrow> None
              | Some f \<Rightarrow>
                  if k < length (f fd bd)
                  then Some (setPhase i (GCb w fd bd (Suc k)) s, (f fd bd ! k) u)
                  else Some (setPhase i (GDone (Succeeded w)) s, u))
         | GDone out \<Rightarrow> None))"

text \<open>
  \<open>ProcessJobs\<close> on its own: the schedule is a list of actions, \<open>PLoop\<close> for a step
  of the loop, \<open>PGo i inp\<close> for a step of goroutine \<open>i\<close>, \<open>PCancel\<close> for the
  cancellation of \<open>ctx\<close> by its owner. A configuration is the flag of the context, the
  variables of the call and the state \<open>'u\<close>.
\<close>

datatype 'r pj_action = PLoop | PGo nat 'r | PCancel

definition pj_step ::
  "nat \<Rightarrow> (FileJob \<Rightarrow> 'r \<Rightarrow> 'u \<Rightarrow> (int64 \<times> error option) \<times> 'u)
     \<Rightarrow> (int \<Rightarrow> int64 \<Rightarrow> ('u \<Rightarrow> 'u) list) option
     \<Rightarrow> 'r pj_action \<Rightarrow> bool \<times> pj_state \<times> 'u \<Rightarrow> (bool \<times> pj_state \<times> 'u) option" where
  "pj_step conc exec cb a csu =
     (case a of
        PLoop \<Rightarrow>
          map_option (\<lambda>s. (fst csu, s, snd (snd csu)))
            (pj_loop_step conc (fst csu) (fst (snd csu)))
      | PGo i inp \<Rightarrow>
          map_option (\<lambda>su. (fst csu, su)) (pj_go_step (fst csu) exec cb i inp (snd csu))
      | PCancel \<Rightarrow> Some (True, snd csu))"

fun pj_run ::
  "nat \<Rightarrow> (FileJob \<Rightarrow> 'r \<Rightarrow> 'u \<Rightarrow> (int64 \<times> error option) \<times> 'u)
     \<Rightarrow> (int \<Rightarrow> int64 \<Rightarrow> ('u \<Rightarrow> 'u) list) option
     \<Rightarrow> 'r pj_action list \<Rightarrow> bool \<times> pj_state \<times> 'u \<Rightarrow> (bool \<times> pj_state \<times> 'u) option" where
  "pj_run conc exec cb [] csu = Some csu"
| "pj_run conc exec cb (a # as) csu =
     (case pj_step conc exec cb a csu of
        None \<Rightarrow> None
      | Some csu' \<Rightarrow> pj_run conc exec cb as csu')"

section \<open>Processing one task (TaskQueue.processTask)\<close>

text \<open>
  What the goroutines of one task act on: the task, the out-channel shared with the
  consumer and the other tasks, and three history variables: every snapshot this task
  offered to the out-channel, with whether it was delivered; every operation it asked of
  the outside world; and every error a call of its executor returned, in either call of
  \<open>ProcessJobs\<close>; each in order.
\<close>

record world =
  w_task :: Task
  w_chan :: "TaskProgress chan"
  w_log :: "(TaskProgress \<times> bool) list"
  w_calls :: "engine_call list"
  w_errs :: "error list"

text \<open>\<open>q.notify(task)\<close> in this setting.\<close>

definition w_notify :: "real \<Rightarrow> world \<Rightarrow> world" where
  "w_notify now w =
     (let (task, ch) = notify now (w_task w, w_chan w)
      in w\<lparr>w_task := task, w_chan := ch,
           w_log := w_log w @ [(snd (notifyTask now (w_task w)), hasRoom (w_chan w))]\<rparr>)"

text \<open>
  A plain send \<open>q.updateChan <- x\<close> blocks while the channel is full: the step exists
  only when there is room.
\<close>

definition w_send :: "TaskProgress \<Rightarrow> world \<Rightarrow> world option" where
  "w_send x w =
     (if hasRoom (w_chan w)
      then Some (w\<lparr>w_chan := push x (w_chan w), w_log := w_log w @ [(x, True)]\<rparr>)
      else None)"

text \<open>The snapshots that carry only a log line: \<open>TaskProgress{TaskID, State, LastLog}\<close>.\<close>

definition logSnap :: "int64 \<Rightarrow> TaskState \<Rightarrow> string \<Rightarrow> TaskProgress" where
  "logSnap i st line = zeroProgress\<lparr>TaskID := i, PState := st, LastLog := line\<rparr>"

text \<open>The deferred function of \<open>processTask\<close>, before its call of \<open>notify\<close>.\<close>

definition finishTask :: "error option \<Rightarrow> Task \<Rightarrow> Task" where
  "finishTask result task =
     (case result of
        Some e \<Rightarrow>
          if ctxCancelled task then task\<lparr>State := TaskCancelled\<rparr>
          else task\<lparr>State := TaskFailed, taskErr := Some e\<rparr>
      | None \<Rightarrow>
          task\<lparr>State := TaskCompleted,
               Progress := (Progress task)\<lparr>CompletedFiles := totalFiles task,
                 BytesTransferred := totalSize task, Percentage := 100\<rparr>\<rparr>)"

text \<open>
  The positions of the task's own goroutine in \<open>processTask\<close>:
  \<^item> \<open>PStart\<close>: at its first line;
  \<^item> \<open>PEngine\<close>: in the recursive branch, before \<open>engine.UploadFile\<close>;
  \<^item> \<open>PRsyncRun\<close>: inside that call, the transfer running;
  \<^item> \<open>PScan\<close>: before the scanning switch; \<open>PScanSend\<close>: the scan is done, the
    sends of its progress callback and the code after the switch are still to come;
  \<^item> \<open>PDirSend\<close>: before the send of the "Creating directories" line;
  \<^item> \<open>PDirs\<close>, \<open>PFiles\<close>: inside \<open>ProcessJobs\<close> for the directories, the files;
  \<^item> \<open>PFinish\<close>: returning, the deferred function still to run; \<open>PDone\<close>: returned.

  Besides the local variables of \<open>processTask\<close>, \<open>proc\<close> records whether the
  monitor and the reader goroutines are alive, and, as a history variable, the terminal
  snapshot: the one built by the last \<open>notify\<close> of \<open>processTask\<close>.
\<close>

datatype pc =
  PStart | PEngine | PRsyncRun | PScan | PScanSend | PDirSend | PDirs | PFiles | PFinish | PDone

record proc =
  p_pc :: pc
  p_engine :: TransferEngine
  p_useRsync :: bool
  p_jobs :: "FileJob list"
  p_total :: int64
  p_scanErr :: "error option"
  p_sends :: "nat list"
  p_dirJobs :: "FileJob list"
  p_fileJobs :: "FileJob list"
  p_result :: "error option"
  p_pj :: pj_state
  p_hasCb :: bool
  p_monitor :: bool
  p_stopClosed :: bool
  p_reader :: bool
  p_final :: "TaskProgress option"

definition proc_init :: proc where
  "proc_init = \<lparr>p_pc = PStart, p_engine = InternalEngine, p_useRsync = False, p_jobs = [],
     p_total = 0, p_scanErr = None, p_sends = [], p_dirJobs = [], p_fileJobs = [],
     p_result = None, p_pj = pj_init [], p_hasCb = False, p_monitor = False,
     p_stopClosed = False, p_reader = False, p_final = None\<rparr>"

definition world_init :: "Task \<Rightarrow> TaskProgress chan \<Rightarrow> world" where
  "world_init task ch = \<lparr>w_task = task, w_chan = ch, w_log = [], w_calls = [], w_errs = []\<rparr>"

text \<open>What is fixed while a task runs: the SSH configuration, the path functions, the settings.\<close>

record penv =
  e_cfg :: SSHConfig
  e_ops :: pathops
  e_settings :: Settings

text \<open>
  What the outside world contributes to a step of the task's own goroutine: the time and
  the result of \<open>exec.LookPath\<close>; the operating-system results of \<open>runRsync\<close>; the
  result of the transfer (\<open>cmd.Wait\<close>, or the SFTP copy); the walk of a directory;
  the size from \<open>Stat\<close> (\<open>None\<close> when it failed); the time of a \<open>notify\<close>; nothing.
\<close>

datatype minput =
    MStart real "error option"
  | MEngine osres
  | MExit "error option"
  | MScanLocal "error option" "local_entry list"
  | MScanRemote "remote_entry list"
  | MStat "int64 option"
  | MNow real
  | MStep

text \<open>The first lines of \<open>processTask\<close>, up to the first \<open>notify\<close>.\<close>

definition usesRsync :: "Settings \<Rightarrow> TaskType \<Rightarrow> bool" where
  "usesRsync st ty = (\<not> DisableRsync st \<and> (ty = TaskUploadDirectory \<or> ty = TaskDownloadDirectory))"

definition wholeDirJob :: "Task \<Rightarrow> FileJob" where
  "wholeDirJob task = \<lparr>Path = Name task, AbsPath = Source task, DestPath = Dest task,
     Size = 0, IsDir = True, IsRecursive = False\<rparr>"

definition start_step :: "penv \<Rightarrow> real \<Rightarrow> error option \<Rightarrow> proc \<times> world \<Rightarrow> proc \<times> world" where
  "start_step env now lookErr pw =
     (let p = fst pw; w = snd pw; task = w_task w in
      if ctxCancelled task
      then (p\<lparr>p_pc := PDone,
              p_final := Some (snd (notifyTask now (task\<lparr>State := TaskCancelled\<rparr>)))\<rparr>,
            w_notify now (w\<lparr>w_task := task\<lparr>State := TaskCancelled\<rparr>\<rparr>))
      else
        let p = p\<lparr>p_engine := NewTransferEngine (e_settings env) lookErr,
                  p_useRsync := usesRsync (e_settings env) (Type task)\<rparr>
        in if p_useRsync p
           then (p\<lparr>p_pc := PEngine\<rparr>,
                 w_notify now (w\<lparr>w_task := task\<lparr>totalFiles := 1, totalSize := 0,
                   taskJobs := [wholeDirJob task], State := TaskTransferring\<rparr>\<rparr>))
           else (p\<lparr>p_pc := PScan\<rparr>, w_notify now (w\<lparr>w_task := task\<lparr>State := TaskScanning\<rparr>\<rparr>)))"

text \<open>The recursive branch: \<open>result = engine.UploadFile(task.ctx, task.Source, task.Dest, ...)\<close>.\<close>

definition engine_step :: "penv \<Rightarrow> osres \<Rightarrow> proc \<times> world \<Rightarrow> proc \<times> world" where
  "engine_step env os pw =
     (let p = fst pw; w = snd pw; task = w_task w in
      case engine_UploadFile (p_engine p) (e_cfg env) os (Source task) (Dest task) of
        Inl e \<Rightarrow> (p\<lparr>p_result := Some e, p_pc := PFinish\<rparr>, w)
      | Inr c \<Rightarrow>
          (p\<lparr>p_pc := PRsyncRun, p_reader := (p_engine p = RsyncEngine)\<rparr>,
           w\<lparr>w_calls := w_calls w @ [c]\<rparr>))"

text \<open>
  The scanning switch. The callback given to the scanners sends a line for every count
  that is a multiple of 500; those sends are kept in \<open>p_sends\<close> and made one by one.
\<close>

definition scanned :: "scan_result \<Rightarrow> proc \<Rightarrow> proc" where
  "scanned r p =
     p\<lparr>p_jobs := sr_jobs r, p_total := sr_totalSize r, p_scanErr := sr_err r,
       p_sends := filter (\<lambda>c. c mod 500 = 0) (sr_progress r), p_pc := PScanSend\<rparr>"

definition singleFile :: "Task \<Rightarrow> int64 option \<Rightarrow> scan_result" where
  "singleFile task st =
     (let sz = (case st of Some z \<Rightarrow> z | None \<Rightarrow> 0)
      in \<lparr>sr_jobs = [\<lparr>Path = Name task, AbsPath = Source task, DestPath = Dest task,
                        Size = sz, IsDir = False, IsRecursive = False\<rparr>],
           sr_totalSize = sz, sr_err = None, sr_progress = []\<rparr>)"

definition scan_step :: "penv \<Rightarrow> minput \<Rightarrow> proc \<times> world \<Rightarrow> (proc \<times> world) option" where
  "scan_step env inp pw =
     (let p = fst pw; w = snd pw; task = w_task w in
      case Type task of
        TaskUploadDirectory \<Rightarrow>
          (case inp of
             MScanLocal rootStat entries \<Rightarrow>
               Some (scanned (ScanLocal (e_ops env) rootStat (Source task)
                                (fp_Dir (e_ops env) (Dest task)) True entries) p, w)
           | _ \<Rightarrow> None)
      | TaskDownloadDirectory \<Rightarrow>
          (case inp of
             MScanRemote entries \<Rightarrow>
               Some (scanned (ScanRemote (e_ops env) (Source task)
                                (fp_Dir (e_ops env) (Dest task)) True entries) p, w)
           | _ \<Rightarrow> None)
      | TaskUploadFile \<Rightarrow>
          (case inp of MStat st \<Rightarrow> Some (scanned (singleFile task st) p, w) | _ \<Rightarrow> None)
      | TaskDownloadFile \<Rightarrow>
          (case inp of MStat st \<Rightarrow> Some (scanned (singleFile task st) p, w) | _ \<Rightarrow> None)
      | TaskTypeOther \<Rightarrow>
          (case inp of
             MStep \<Rightarrow> Some (scanned (scan_empty\<lparr>sr_err := Some ''unknown task type''\<rparr>) p, w)
           | _ \<Rightarrow> None))"

text \<open>
  After the switch: the failure of the scan, or the start of the transfer phase (the
  totals, the \<open>notify\<close>, the monitor goroutine, the split into directories and files).
\<close>

definition after_scan :: "real \<Rightarrow> proc \<times> world \<Rightarrow> proc \<times> world" where
  "after_scan now pw =
     (let p = fst pw; w = snd pw; task = w_task w in
      case p_scanErr p of
        Some e \<Rightarrow>
          (p\<lparr>p_pc := PFinish\<rparr>,
           w_notify now (w\<lparr>w_task := task\<lparr>State := TaskFailed, taskErr := Some e\<rparr>\<rparr>))
      | None \<Rightarrow>
          let task = (if \<not> p_useRsync p
                      then task\<lparr>totalFiles := int (length (p_jobs p)), totalSize := p_total p\<rparr>
                      else task);
              task = task\<lparr>taskJobs := p_jobs p, State := TaskTransferring\<rparr>;
              w = w_notify now (w\<lparr>w_task := task\<rparr>);
              p = p\<lparr>p_monitor := True, p_dirJobs := filter IsDir (p_jobs p),
                    p_fileJobs := filter (\<lambda>j. \<not> IsDir j) (p_jobs p)\<rparr>
          in if 0 < length (p_dirJobs p) then (p\<lparr>p_pc := PDirSend\<rparr>, w)
             else (p\<lparr>p_pj := pj_init (p_fileJobs p), p_hasCb := True, p_pc := PFiles\<rparr>, w))"

text \<open>\<open>NewFileQueue(128)\<close>: the capacity of the semaphore of the file queue.\<close>

definition fileQueueConcurrency :: nat where
  "fileQueueConcurrency = 128"

text \<open>
  A step of the task's goroutine inside \<open>ProcessJobs\<close>, for the directories and for
  the files, and what follows the return of each call.
\<close>

definition dirs_step :: "proc \<times> world \<Rightarrow> (proc \<times> world) option" where
  "dirs_step pw =
     (let p = fst pw; w = snd pw in
      case pj_loop (p_pj p) of
        LReturned r \<Rightarrow>
          if r \<noteq> None then Some (p\<lparr>p_result := r, p_pc := PFinish\<rparr>, w)
          else Some (p\<lparr>p_pj := pj_init (p_fileJobs p), p_hasCb := True, p_pc := PFiles\<rparr>, w)
      | _ \<Rightarrow>
          map_option (\<lambda>s. (p\<lparr>p_pj := s\<rparr>, w))
            (pj_loop_step fileQueueConcurrency (ctxCancelled (w_task w)) (p_pj p)))"

definition files_step :: "proc \<times> world \<Rightarrow> (proc \<times> world) option" where
  "files_step pw =
     (let p = fst pw; w = snd pw in
      case pj_loop (p_pj p) of
        LReturned r \<Rightarrow> Some (p\<lparr>p_result := r, p_stopClosed := True, p_pc := PFinish\<rparr>, w)
      | _ \<Rightarrow>
          map_option (\<lambda>s. (p\<lparr>p_pj := s\<rparr>, w))
            (pj_loop_step fileQueueConcurrency (ctxCancelled (w_task w)) (p_pj p)))"

definition scanLine :: "nat \<Rightarrow> string" where
  "scanLine c = ''Scanning... '' @ showNat c @ '' files found''"

definition dirsLine :: "nat \<Rightarrow> string" where
  "dirsLine n = ''Creating '' @ showNat n @ '' directories...''"

text \<open>One step of the task's own goroutine.\<close>

definition main_step :: "penv \<Rightarrow> minput \<Rightarrow> proc \<times> world \<Rightarrow> (proc \<times> world) option" where
  "main_step env inp pw =
     (let p = fst pw; w = snd pw; task = w_task w in
      case p_pc p of
        PStart \<Rightarrow>
          (case inp of MStart now lookErr \<Rightarrow> Some (start_step env now lookErr pw) | _ \<Rightarrow> None)
      | PEngine \<Rightarrow> (case inp of MEngine os \<Rightarrow> Some (engine_step env os pw) | _ \<Rightarrow> None)
      | PRsyncRun \<Rightarrow>
          (case inp of MExit r \<Rightarrow> Some (p\<lparr>p_result := r, p_pc := PFinish\<rparr>, w) | _ \<Rightarrow> None)
      | PScan \<Rightarrow> scan_step env inp pw
      | PScanSend \<Rightarrow>
          (case inp of
             MStep \<Rightarrow>
               (case p_sends p of
                  [] \<Rightarrow> None
                | c # cs \<Rightarrow>
                    map_option (\<lambda>w'. (p\<lparr>p_sends := cs\<rparr>, w'))
                      (w_send (logSnap (ID task) TaskScanning (scanLine c)) w))
           | MNow now \<Rightarrow> if p_sends p = [] then Some (after_scan now pw) else None
           | _ \<Rightarrow> None)
      | PDirSend \<Rightarrow>
          (case inp of
             MStep \<Rightarrow>
               map_option
                 (\<lambda>w'. (p\<lparr>p_pj := pj_init (p_dirJobs p), p_hasCb := False, p_pc := PDirs\<rparr>, w'))
                 (w_send (logSnap (ID task) TaskTransferring (dirsLine (length (p_dirJobs p)))) w)
           | _ \<Rightarrow> None)
      | PDirs \<Rightarrow> (case inp of MStep \<Rightarrow> dirs_step pw | _ \<Rightarrow> None)
      | PFiles \<Rightarrow> (case inp of MStep \<Rightarrow> files_step pw | _ \<Rightarrow> None)
      | PFinish \<Rightarrow>
          (case inp of
             MNow now \<Rightarrow>
               Some (p\<lparr>p_pc := PDone,
                       p_final := Some (snd (notifyTask now (finishTask (p_result p) task)))\<rparr>,
                     w_notify now (w\<lparr>w_task := finishTask (p_result p) task\<rparr>))
           | _ \<Rightarrow> None)
      | PDone \<Rightarrow> None)"

text \<open>
  The executor as \<open>ProcessJobs\<close> calls it: \<open>inp\<close> holds the operating-system
  results of \<open>runRsync\<close> and the result of the operation. (With \<open>useRsync\<close> false, as
  it is whenever \<open>processTask\<close> reaches \<open>makeExecutor\<close>, the executor passes no
  callback to the engine.)
\<close>

definition w_exec ::
  "penv \<Rightarrow> proc \<Rightarrow> FileJob \<Rightarrow> osres \<times> error option \<Rightarrow> world \<Rightarrow> (int64 \<times> error option) \<times> world" where
  "w_exec env p job inp w =
     (let plan = makeExecutor (Type (w_task w)) (p_useRsync p) (p_engine p) (e_cfg env)
                   (fst inp) job;
          res = executorResult plan (snd inp);
          w = (case fst (snd plan) of Inl e \<Rightarrow> w | Inr c \<Rightarrow> w\<lparr>w_calls := w_calls w @ [c]\<rparr>)
      in (res, case snd res of None \<Rightarrow> w | Some e \<Rightarrow> w\<lparr>w_errs := w_errs w @ [e]\<rparr>))"

text \<open>
  The callback given to \<open>ProcessJobs\<close> for the files: its two writes, in order.
\<close>

definition storeBytes :: "int64 \<Rightarrow> world \<Rightarrow> world" where
  "storeBytes bd w =
     w\<lparr>w_task := (w_task w)\<lparr>Progress := (Progress (w_task w))\<lparr>BytesTransferred := bd\<rparr>\<rparr>\<rparr>"

definition storeFiles :: "int \<Rightarrow> world \<Rightarrow> world" where
  "storeFiles n w =
     w\<lparr>w_task := (w_task w)\<lparr>Progress := (Progress (w_task w))\<lparr>CompletedFiles := n\<rparr>\<rparr>\<rparr>"

definition w_cb :: "proc \<Rightarrow> (int \<Rightarrow> int64 \<Rightarrow> (world \<Rightarrow> world) list) option" where
  "w_cb p =
     (if p_hasCb p
      then Some (\<lambda>filesDone bytesDone.
             [storeBytes bytesDone, storeFiles (filesDone + int (length (p_dirJobs p)))])
      else None)"

text \<open>
  The actions of a schedule:
  \<^item> \<open>ACancel\<close>: \<open>CancelAllTasks\<close> reaches the task;
  \<^item> \<open>ARecv\<close>: the consumer receives from the out-channel; \<open>AEnvSend x\<close>: another task
    sends \<open>x\<close> on it;
  \<^item> \<open>AMain inp\<close>: a step of the task's own goroutine;
  \<^item> \<open>ATick now\<close>: the monitor's ticker fires; \<open>AMonExit\<close>: the monitor returns;
  \<^item> \<open>AReader line\<close>: the goroutine that reads the output of \<open>rsync\<close> hands a chunk
    to the progress callback; \<open>AReaderExit\<close>: it ends;
  \<^item> \<open>AGo i os r\<close>: a step of goroutine \<open>i\<close> of \<open>ProcessJobs\<close>.
\<close>

datatype action =
    ACancel
  | ARecv
  | AEnvSend TaskProgress
  | AMain minput
  | ATick real
  | AMonExit
  | AReader string
  | AReaderExit
  | AGo nat osres "error option"

definition step :: "penv \<Rightarrow> action \<Rightarrow> proc \<times> world \<Rightarrow> (proc \<times> world) option" where
  "step env a pw =
     (let p = fst pw; w = snd pw; task = w_task w in
      case a of
        ACancel \<Rightarrow> Some (p, w\<lparr>w_task := cancelIfLive task\<rparr>)
      | ARecv \<Rightarrow>
          (case buf (w_chan w) of
             [] \<Rightarrow> None
           | x # xs \<Rightarrow> Some (p, w\<lparr>w_chan := (w_chan w)\<lparr>buf := xs\<rparr>\<rparr>))
      | AEnvSend x \<Rightarrow>
          if hasRoom (w_chan w) then Some (p, w\<lparr>w_chan := push x (w_chan w)\<rparr>) else None
      | AMain inp \<Rightarrow> main_step env inp pw
      | ATick now \<Rightarrow> if p_monitor p then Some (p, w_notify now w) else None
      | AMonExit \<Rightarrow>
          if p_monitor p \<and> (p_stopClosed p \<or> ctxCancelled task)
          then Some (p\<lparr>p_monitor := False\<rparr>, w) else None
      | AReader line \<Rightarrow>
          if p_reader p
          then (if line \<noteq> [] then map_option (\<lambda>w'. (p, w')) (w_send (logSnap (ID task) (State task) line) w)
                else Some (p, w))
          else None
      | AReaderExit \<Rightarrow> if p_reader p then Some (p\<lparr>p_reader := False\<rparr>, w) else None
      | AGo i os r \<Rightarrow>
          map_option (\<lambda>sw. (p\<lparr>p_pj := fst sw\<rparr>, snd sw))
            (pj_go_step (ctxCancelled task) (w_exec env p) (w_cb p) i (os, r) (p_pj p, w)))"

text \<open>A schedule, run from a configuration; \<open>None\<close> when one of its steps does not exist.\<close>

fun run :: "penv \<Rightarrow> action list \<Rightarrow> proc \<times> world \<Rightarrow> (proc \<times> world) option" where
  "run env [] pw = Some pw"
| "run env (a # as) pw =
     (case step env a pw of
        None \<Rightarrow> None
      | Some pw' \<Rightarrow> run env as pw')"

text \<open>The snapshots that reached the out-channel, in order.\<close>

definition sent :: "world \<Rightarrow> TaskProgress list" where
  "sent w = map fst (filter snd (w_log w))"

section \<open>Properties of the file queue\<close>

text \<open>
  What the position of a goroutine says about its job: whether the job has been added to
  \<open>filesDone\<close>; the bytes it has added to \<open>bytesDone\<close>; whether \<open>updateFn\<close>
  has been called for it.
\<close>

fun countedFile :: "gphase \<Rightarrow> bool" where
  "countedFile (GFd w fd) = True"
| "countedFile (GCb w fd bd k) = True"
| "countedFile (GDone (Succeeded w)) = True"
| "countedFile ph = False"

fun byteCount :: "gphase \<Rightarrow> int64" where
  "byteCount (GCb w fd bd k) = w"
| "byteCount (GDone (Succeeded w)) = w"
| "byteCount ph = 0"

fun calledBack :: "gphase \<Rightarrow> bool" where
  "calledBack (GCb w fd bd k) = True"
| "calledBack (GDone (Succeeded w)) = True"
| "calledBack ph = False"

definition filesOf :: "goroutine list \<Rightarrow> int" where
  "filesOf gs = int (length (filter (\<lambda>g. countedFile (g_phase g)) gs))"

definition bytesOf :: "goroutine list \<Rightarrow> int64" where
  "bytesOf gs = sum_list (map (\<lambda>g. byteCount (g_phase g)) gs)"

text \<open>
  Every recorded call of \<open>updateFn\<close> belongs to a goroutine that is in, or past, that
  call.
\<close>

definition cbLogOk :: "goroutine list \<Rightarrow> (nat \<times> int \<times> int64) list \<Rightarrow> bool" where
  "cbLogOk gs cl = (\<forall>c \<in> set cl. fst c < length gs \<and> calledBack (g_phase (gs ! fst c)))"

text \<open>The counters agree with the positions of the goroutines.\<close>

definition pj_inv :: "pj_state \<Rightarrow> bool" where
  "pj_inv s =
     (pj_filesDone s = filesOf (pj_gos s)
      \<and> pj_bytesDone s = bytesOf (pj_gos s)
      \<and> cbLogOk (pj_gos s) (pj_cbLog s))"





text \<open>
  The returns of the executor, as \<open>pj_execLog\<close> records them, against the positions
  of the goroutines. \<open>entries i rs\<close> are the returns recorded for goroutine \<open>i\<close>;
  \<open>returned ph\<close> is what a goroutine at \<open>ph\<close> holds of its executor call (nothing
  yet, an error, or a byte count); \<open>logOf\<close> says that the log has exactly the return
  the position shows: none before the call returns, one with that error, or one with
  that byte count and \<open>nil\<close>.
\<close>

definition entries :: "nat \<Rightarrow> (nat \<times> 'a) list \<Rightarrow> 'a list" where
  "entries i rs = map snd (filter (\<lambda>r. fst r = i) rs)"

fun returned :: "gphase \<Rightarrow> (error + int64) option" where
  "returned (GSucc w) = Some (Inr w)"
| "returned (GFd w fd) = Some (Inr w)"
| "returned (GCb w fd bd k) = Some (Inr w)"
| "returned (GDone (Succeeded w)) = Some (Inr w)"
| "returned (GDone (Failed e)) = Some (Inl e)"
| "returned ph = None"

definition logOf :: "gphase \<Rightarrow> (int64 \<times> error option) list \<Rightarrow> bool" where
  "logOf ph rs =
     (case returned ph of
        None \<Rightarrow> rs = []
      | Some (Inl e) \<Rightarrow> (case rs of [r] \<Rightarrow> snd r = Some e | _ \<Rightarrow> False)
      | Some (Inr w) \<Rightarrow> rs = [(w, None)])"

definition execLogOk :: "pj_state \<Rightarrow> bool" where
  "execLogOk s =
     ((\<forall>r \<in> set (pj_execLog s). fst r < length (pj_gos s))
      \<and> (\<forall>i < length (pj_gos s). logOf (g_phase (pj_gos s ! i)) (entries i (pj_execLog s))))"

text \<open>
  The returns with \<open>err = nil\<close>, and the tally: each such return is counted in
  \<open>filesDone\<close> or still waits at \<open>AddInt64(&filesDone, 1)\<close>, and its byte count is
  in \<open>bytesDone\<close> or still waits at \<open>AddInt64(&bytesDone, written)\<close>.
\<close>

definition okRets :: "(nat \<times> int64 \<times> error option) list \<Rightarrow> (nat \<times> int64 \<times> error option) list" where
  "okRets rs = filter (\<lambda>r. snd (snd r) = None) rs"

fun fdPending :: "gphase \<Rightarrow> bool" where
  "fdPending (GSucc w) = True"
| "fdPending ph = False"

fun bytesPending :: "gphase \<Rightarrow> int64" where
  "bytesPending (GSucc w) = w"
| "bytesPending (GFd w fd) = w"
| "bytesPending ph = 0"

definition tallyOk :: "pj_state \<Rightarrow> bool" where
  "tallyOk s =
     (int (length (okRets (pj_execLog s)))
        = pj_filesDone s + int (length (filter (\<lambda>g. fdPending (g_phase g)) (pj_gos s)))
      \<and> sum_list (map (\<lambda>r. fst (snd r)) (okRets (pj_execLog s)))
        = pj_bytesDone s + sum_list (map (\<lambda>g. bytesPending (g_phase g)) (pj_gos s)))"

section \<open>Properties of a task that is not cancelled\<close>





section \<open>Properties of the snapshots\<close>

text \<open>
  The sizes of a list of jobs, read as signed integers, are not negative and add up to
  the signed value of \<open>tot\<close>: the 64-bit sum did not wrap around. \<open>sizesFit\<close> says
  the same of the sizes a walk delivers: none is negative and their sum is below
  \<open>2^63\<close>.
\<close>

definition isum :: "FileJob list \<Rightarrow> int" where
  "isum js = sum_list (map (\<lambda>j. sint (Size j)) js)"

definition fitsTotal :: "FileJob list \<Rightarrow> int64 \<Rightarrow> bool" where
  "fitsTotal js tot = ((\<forall>j \<in> set js. 0 \<le> sint (Size j)) \<and> isum js = sint tot)"

definition sizesFit :: "int64 list \<Rightarrow> bool" where
  "sizesFit zs = ((\<forall>z \<in> set zs. 0 \<le> sint z) \<and> sum_list (map sint zs) < 2 ^ 63)"

definition filesOnly :: "FileJob list \<Rightarrow> FileJob list" where
  "filesOnly js = filter (\<lambda>j. \<not> IsDir j) js"

text \<open>
  What a schedule takes from the file system: the sizes that \<open>Stat\<close>,
  \<open>filepath.Walk\<close> and the remote walker report are sizes of files.
\<close>

fun sizesOk :: "action \<Rightarrow> bool" where
  "sizesOk (AMain (MScanLocal rs es)) = sizesFit (map le_size es)"
| "sizesOk (AMain (MScanRemote es)) = sizesFit (map re_size es)"
| "sizesOk (AMain (MStat (Some z))) = (0 \<le> sint z)"
| "sizesOk a = True"

text \<open>
  A snapshot within its totals; the same of the counters of a task, from which
  \<open>notify\<close> builds its snapshots; and of every snapshot offered to the out-channel so
  far.
\<close>

definition snapOk :: "TaskProgress \<Rightarrow> bool" where
  "snapOk x =
     (CompletedFiles x \<le> TotalFiles x
      \<and> (0 <s TotalSize x \<longrightarrow> BytesTransferred x \<le>s TotalSize x \<and> Percentage x \<le> 100))"

definition taskOk :: "Task \<Rightarrow> bool" where
  "taskOk t =
     (CompletedFiles (Progress t) \<le> totalFiles t
      \<and> (0 <s totalSize t \<longrightarrow> BytesTransferred (Progress t) \<le>s totalSize t))"

definition logOk :: "world \<Rightarrow> bool" where
  "logOk w = (\<forall>xb \<in> set (w_log w). snapOk (fst xb))"

text \<open>
  The call of \<open>ProcessJobs\<close> for the files: the bytes the goroutines have added, as an
  integer; a goroutine holds a byte count between 0 and the size of its job, a file
  count of at most the number of file jobs and, for the callback, a byte total of at most
  the total of the task; and the jobs of the call are the file jobs of the task, some
  started and the others waiting.
\<close>

definition ibytes :: "goroutine list \<Rightarrow> int" where
  "ibytes gs = sum_list (map (\<lambda>g. sint (byteCount (g_phase g))) gs)"

definition wOk :: "int64 \<Rightarrow> goroutine \<Rightarrow> bool" where
  "wOk x g = (0 \<le> sint x \<and> sint x \<le> sint (Size (g_job g)))"

fun gorOk :: "int \<Rightarrow> int \<Rightarrow> goroutine \<Rightarrow> gphase \<Rightarrow> bool" where
  "gorOk n tot g (GSucc x) = wOk x g"
| "gorOk n tot g (GFd x fd) = (wOk x g \<and> fd \<le> n)"
| "gorOk n tot g (GCb x fd bd k) = (wOk x g \<and> fd \<le> n \<and> sint bd \<le> tot)"
| "gorOk n tot g (GDone (Succeeded x)) = wOk x g"
| "gorOk n tot g ph = True"

definition pjOk :: "proc \<Rightarrow> Task \<Rightarrow> bool" where
  "pjOk p t =
     (map g_job (pj_gos (p_pj p)) @ pj_jobs (p_pj p) = p_fileJobs p
      \<and> pj_filesDone (p_pj p) = filesOf (pj_gos (p_pj p))
      \<and> sint (pj_bytesDone (p_pj p)) = ibytes (pj_gos (p_pj p))
      \<and> (\<forall>g \<in> set (pj_gos (p_pj p)).
            gorOk (int (length (p_fileJobs p))) (sint (totalSize t)) g (g_phase g)))"

text \<open>
  Before the transfer phase the counters of the task are zero and no job list is set;
  afterwards the total of the task is the sum of the sizes of its file jobs, and the
  task counts at least as many files as it has jobs.
\<close>

definition pre :: "pc \<Rightarrow> bool" where
  "pre c = (c = PStart \<or> c = PScan \<or> c = PScanSend)"

definition preOk :: "proc \<Rightarrow> Task \<Rightarrow> bool" where
  "preOk p t =
     ((pre (p_pc p) \<longrightarrow> CompletedFiles (Progress t) = 0 \<and> BytesTransferred (Progress t) = 0
          \<and> \<not> p_hasCb p \<and> p_fileJobs p = [] \<and> p_dirJobs p = [])
      \<and> (p_pc p = PScan \<or> p_pc p = PScanSend \<longrightarrow> \<not> p_useRsync p))"

definition totalsOk :: "proc \<Rightarrow> Task \<Rightarrow> bool" where
  "totalsOk p t =
     (fitsTotal (p_fileJobs p) (totalSize t)
      \<and> int (length (p_dirJobs p)) + int (length (p_fileJobs p)) \<le> totalFiles t)"

definition scanOk :: "proc \<Rightarrow> bool" where
  "scanOk p =
     (p_pc p = PScanSend \<and> p_scanErr p = None \<longrightarrow> fitsTotal (filesOnly (p_jobs p)) (p_total p))"

definition inv8 :: "proc \<times> world \<Rightarrow> bool" where
  "inv8 pw =
     (logOk (snd pw) \<and> taskOk (w_task (snd pw)) \<and> preOk (fst pw) (w_task (snd pw))
      \<and> totalsOk (fst pw) (w_task (snd pw)) \<and> scanOk (fst pw)
      \<and> (p_hasCb (fst pw) \<longrightarrow> pjOk (fst pw) (w_task (snd pw))))"

text \<open>
  The same for the file counts alone, which need nothing of the sizes: a snapshot, the
  task, the snapshots offered so far, a goroutine, the call of \<open>ProcessJobs\<close> for the
  files, and the configuration.
\<close>

definition snapF :: "TaskProgress \<Rightarrow> bool" where
  "snapF x = (CompletedFiles x \<le> TotalFiles x)"

definition taskF :: "Task \<Rightarrow> bool" where
  "taskF t = (CompletedFiles (Progress t) \<le> totalFiles t)"

definition logF :: "world \<Rightarrow> bool" where
  "logF w = (\<forall>xb \<in> set (w_log w). snapF (fst xb))"

fun gorF :: "int \<Rightarrow> gphase \<Rightarrow> bool" where
  "gorF n (GFd x fd) = (fd \<le> n)"
| "gorF n (GCb x fd bd k) = (fd \<le> n)"
| "gorF n ph = True"

definition pjF :: "proc \<Rightarrow> bool" where
  "pjF p =
     (map g_job (pj_gos (p_pj p)) @ pj_jobs (p_pj p) = p_fileJobs p
      \<and> pj_filesDone (p_pj p) = filesOf (pj_gos (p_pj p))
      \<and> (\<forall>g \<in> set (pj_gos (p_pj p)). gorF (int (length (p_fileJobs p))) (g_phase g)))"

definition preF :: "proc \<Rightarrow> Task \<Rightarrow> bool" where
  "preF p t =
     ((pre (p_pc p) \<longrightarrow> CompletedFiles (Progress t) = 0 \<and> \<not> p_hasCb p
          \<and> p_fileJobs p = [] \<and> p_dirJobs p = [])
      \<and> (p_pc p = PScan \<or> p_pc p = PScanSend \<longrightarrow> \<not> p_useRsync p))"

definition totalsF :: "proc \<Rightarrow> Task \<Rightarrow> bool" where
  "totalsF p t = (int (length (p_dirJobs p)) + int (length (p_fileJobs p)) \<le> totalFiles t)"

definition invF :: "proc \<times> world \<Rightarrow> bool" where
  "invF pw =
     (logF (snd pw) \<and> taskF (w_task (snd pw)) \<and> preF (fst pw) (w_task (snd pw))
      \<and> totalsF (fst pw) (w_task (snd pw)) \<and> (p_hasCb (fst pw) \<longrightarrow> pjF (fst pw)))"

section \<open>Concrete configurations\<close>

text \<open>
  A host, the results of the operating-system calls when all succeed, path functions,
  and schedules, used where a property is evaluated on a concrete run.
\<close>

definition exCfg :: SSHConfig where
  "exCfg = \<lparr>Host = ''example.org'', Port = 22, Username = ''alice'', Password = [],
     PrivateKey = ''/home/alice/.ssh/id'', KeyContent = [], KeyPassword = []\<rparr>"

definition exOs :: osres where
  "exOs = \<lparr>createTemp = Inr ''/tmp/marix-rsync-1.pem'', chmodErr = None, writeErr = None,
     goosWindows = False, pipeErr = None, startErr = None\<rparr>"

definition exOps :: pathops where
  "exOps = \<lparr>fp_Dir = (\<lambda>p. p), fp_Rel = (\<lambda>b p. p), fp_Join = (\<lambda>a b. a @ ''/'' @ b)\<rparr>"

definition exEnv :: "bool \<Rightarrow> penv" where
  "exEnv disable = \<lparr>e_cfg = exCfg, e_ops = exOps, e_settings = \<lparr>DisableRsync = disable\<rparr>\<rparr>"

text \<open>The \<open>-e\<close> argument of \<open>rsync\<close> for \<open>exCfg\<close> (0x27 is the single quote).\<close>

definition exSshOpts :: string where
  "exSshOpts = ''ssh -p 22 -i '' @ [CHR 0x27] @ ''/home/alice/.ssh/id'' @ [CHR 0x27]
     @ '' -o StrictHostKeyChecking=no''"

text \<open>A task as \<open>QueueTask\<close> left it, before an out-channel of capacity \<open>n\<close>.\<close>

definition exStart :: "Task \<Rightarrow> nat \<Rightarrow> proc \<times> world" where
  "exStart task n = (proc_init, world_init task \<lparr>buf = [], cap = n\<rparr>)"

text \<open>
  A directory task in the recursive branch: start, the engine call, the end of the
  transfer with result \<open>r\<close>, the deferred function.
\<close>

definition exDirSchedule :: "error option \<Rightarrow> action list" where
  "exDirSchedule r = [AMain (MStart 0 None), AMain (MEngine exOs), AMain (MExit r), AMain (MNow 1)]"

text \<open>
  A single-file task whose file has \<open>sz\<close> bytes: start, \<open>Stat\<close>, the start of the
  transfer phase, the loop starts the one goroutine, the goroutine runs to its end (the
  operation returning \<open>r\<close>), the loop ends and returns, the deferred function.
\<close>

definition exFileSchedule :: "int64 \<Rightarrow> error option \<Rightarrow> action list" where
  "exFileSchedule sz r =
     [AMain (MStart 0 None), AMain (MStat (Some sz)), AMain (MNow 1), AMain MStep, AMain MStep,
      AGo 0 exOs r, AGo 0 exOs r, AGo 0 exOs r, AGo 0 exOs r, AGo 0 exOs r, AGo 0 exOs r,
      AGo 0 exOs r, AMain MStep, AMain MStep, AMain MStep, AMain (MNow 2)]"

definition exJob :: FileJob where
  "exJob = \<lparr>Path = ''a.txt'', AbsPath = ''/tmp/a.txt'', DestPath = ''/home/u/a.txt'', Size = 6,
     IsDir = False, IsRecursive = False\<rparr>"

text \<open>
  A queue with \<open>maxTasks = 1\<close> (admission channel of capacity 2) after two calls of
  \<open>QueueTask\<close>, the dispatcher not having run yet.
\<close>

definition exQueue :: "error + TaskQueue" where
  "exQueue =
     map_sum id
       (\<lambda>q. fst (QueueTask 0 TaskUploadFile ''2'' ''2'' ''2''
               (fst (QueueTask 0 TaskUploadFile ''1'' ''1'' ''1'' q))))
       (NewTaskQueue \<lparr>DisableRsync = False\<rparr> 1 \<lparr>buf = [], cap = 10\<rparr>)"




text \<open>
  \<open>ProcessJobs\<close> as its test calls it: three jobs of 100 bytes, an executor that fails
  on the job named \<open>fail\<close>, two goroutines at a time. In \<open>exPjPrefix\<close> the loop
  starts the first two jobs and the second fails; in \<open>exPjRest\<close> the first job
  completes and the loop returns.
\<close>

definition exExec :: "FileJob \<Rightarrow> unit \<Rightarrow> unit \<Rightarrow> (int64 \<times> error option) \<times> unit" where
  "exExec j x v = ((Size j, if Path j = ''fail'' then Some ''simulated error'' else None), v)"

definition exNamed :: "string \<Rightarrow> FileJob" where
  "exNamed n = \<lparr>Path = n, AbsPath = [], DestPath = [], Size = 100, IsDir = False,
     IsRecursive = False\<rparr>"

definition exJobs :: "FileJob list" where
  "exJobs = [exNamed ''first'', exNamed ''fail'', exNamed ''last'']"

definition exPjPrefix :: "unit pj_action list" where
  "exPjPrefix = [PLoop, PLoop, PLoop, PLoop, PGo 1 (), PGo 1 ()]"

definition exPjRest :: "unit pj_action list" where
  "exPjRest = [PGo 0 (), PGo 0 (), PGo 0 (), PGo 0 (), PLoop]"

definition exCb :: "int \<Rightarrow> int64 \<Rightarrow> (unit \<Rightarrow> unit) list" where
  "exCb fd bd = [\<lambda>v. v]"

text \<open>
  The upload of a single file of 6 bytes that succeeds, the monitor's ticker firing twice
  while the callback of \<open>ProcessJobs\<close> runs: between its two writes, and after them.
\<close>

definition exTickSchedule :: "action list" where
  "exTickSchedule =
     [AMain (MStart 0 None), AMain (MStat (Some 6)), AMain (MNow 1), AMain MStep, AMain MStep,
      AGo 0 exOs None, AGo 0 exOs None, AGo 0 exOs None, AGo 0 exOs None, AGo 0 exOs None,
      ATick 2, AGo 0 exOs None, ATick 3, AGo 0 exOs None,
      AMain MStep, AMain MStep, AMain MStep, AMain (MNow 4)]"


text \<open>
  A directory with a file of 10 bytes and two sparse files of \<open>2^63 - 1\<close> bytes each,
  and a schedule for its upload with the native engine: the directory is created, the
  first file is copied, and the monitor's ticker fires between the two writes of the
  callback of \<open>ProcessJobs\<close>.
\<close>

definition exSparseEntries :: "local_entry list" where
  "exSparseEntries =
     [\<lparr>le_path = ''/tmp/t'', le_size = 4096, le_isDir = True, le_symlink = False,
       le_target = LinkBroken, le_walkErr = None, le_ctxErr = None\<rparr>,
      \<lparr>le_path = ''/tmp/t/a'', le_size = 10, le_isDir = False, le_symlink = False,
       le_target = LinkBroken, le_walkErr = None, le_ctxErr = None\<rparr>,
      \<lparr>le_path = ''/tmp/t/b'', le_size = 9223372036854775807, le_isDir = False,
       le_symlink = False, le_target = LinkBroken, le_walkErr = None, le_ctxErr = None\<rparr>,
      \<lparr>le_path = ''/tmp/t/c'', le_size = 9223372036854775807, le_isDir = False,
       le_symlink = False, le_target = LinkBroken, le_walkErr = None, le_ctxErr = None\<rparr>]"

definition exSparseSchedule :: "action list" where
  "exSparseSchedule =
     [AMain (MStart 0 None), AMain (MScanLocal None exSparseEntries), AMain (MNow 1), AMain MStep,
      AMain MStep, AMain MStep,
      AGo 0 exOs None, AGo 0 exOs None, AGo 0 exOs None, AGo 0 exOs None,
      AMain MStep, AMain MStep, AMain MStep,
      AMain MStep, AMain MStep,
      AGo 0 exOs None, AGo 0 exOs None, AGo 0 exOs None, AGo 0 exOs None, AGo 0 exOs None,
      ATick 2]"

section \<open>Scanner: the total is the sum of the file sizes\<close>

lemma fileBytes_snoc:
  "fileBytes (jobs @ [j]) = (if IsDir j then fileBytes jobs else fileBytes jobs + Size j)"
  by (simp add: fileBytes_def)

lemma scanLocalWalk_total:
  "sr_totalSize acc = fileBytes (sr_jobs acc) \<Longrightarrow>
   sr_totalSize (scanLocalWalk ops b r cb es acc) =
     fileBytes (sr_jobs (scanLocalWalk ops b r cb es acc))"
proof (induction es arbitrary: acc)
  case Nil
  then show ?case by simp
next
  case (Cons e es)
  show ?case
  proof (cases "le_walkErr e")
    case (Some err)
    with Cons.prems show ?thesis by simp
  next
    case None
    note walk = None
    show ?thesis
    proof (cases "le_ctxErr e")
      case (Some err)
      with walk Cons.prems show ?thesis by simp
    next
      case None
      show ?thesis
      proof (cases "le_symlink e \<and> le_target e \<noteq> LinkToFile")
        case True
        with walk None Cons.IH [OF Cons.prems] show ?thesis by simp
      next
        case False
        with walk None Cons.prems show ?thesis
          by (simp add: Let_def mkJob_def fileBytes_snoc Cons.IH)
      qed
    qed
  qed
qed

lemma scanRemoteLoop_total:
  "sr_totalSize acc = fileBytes (sr_jobs acc) \<Longrightarrow>
   sr_totalSize (scanRemoteLoop ops b r cb es acc) =
     fileBytes (sr_jobs (scanRemoteLoop ops b r cb es acc))"
proof (induction es arbitrary: acc)
  case Nil
  then show ?case by simp
next
  case (Cons e es)
  show ?case
  proof (cases "re_walkErr e")
    case (Some err)
    with Cons.IH [OF Cons.prems] show ?thesis by simp
  next
    case None
    note walk = None
    show ?thesis
    proof (cases "re_ctxErr e")
      case (Some err)
      with walk show ?thesis by (simp add: fileBytes_def)
    next
      case None
      with walk Cons.prems show ?thesis
        by (simp add: Let_def mkJob_def fileBytes_snoc Cons.IH)
    qed
  qed
qed

text \<open>
  Claim C9. Whatever the walk delivers, and however the scan ends, the \<open>totalSize\<close>
  that \<open>ScanLocal\<close> and \<open>ScanRemote\<close> return is the (64-bit) sum of \<open>Size\<close> over
  exactly the returned jobs whose \<open>IsDir\<close> is false; directory jobs add nothing.
\<close>

theorem C9_scan_total_is_sum_of_file_sizes:
  "sr_totalSize (ScanLocal ops rootStat rootPath remoteRoot hasCb les) =
     sum_list (map Size (filter (\<lambda>j. \<not> IsDir j)
       (sr_jobs (ScanLocal ops rootStat rootPath remoteRoot hasCb les))))
   \<and> sr_totalSize (ScanRemote ops rootPath localRoot hasCb res) =
     sum_list (map Size (filter (\<lambda>j. \<not> IsDir j)
       (sr_jobs (ScanRemote ops rootPath localRoot hasCb res))))"
proof -
  have init: "sr_totalSize scan_empty = fileBytes (sr_jobs scan_empty)"
    by (simp add: scan_empty_def fileBytes_def)
  have l: "sr_totalSize (ScanLocal ops rootStat rootPath remoteRoot hasCb les) =
      fileBytes (sr_jobs (ScanLocal ops rootStat rootPath remoteRoot hasCb les))"
  proof (cases rootStat)
    case None
    then show ?thesis by (simp add: ScanLocal_def scanLocalWalk_total [OF init])
  next
    case (Some err)
    then show ?thesis by (simp add: ScanLocal_def scan_empty_def fileBytes_def)
  qed
  have r: "sr_totalSize (ScanRemote ops rootPath localRoot hasCb res) =
      fileBytes (sr_jobs (ScanRemote ops rootPath localRoot hasCb res))"
    by (simp add: ScanRemote_def scanRemoteLoop_total [OF init])
  from l r show ?thesis by (simp add: fileBytes_def)
qed

section \<open>Engine selection and the direction of the transfer\<close>

text \<open>
  Claim C1. A download-directory task with the rsync engine (\<open>DisableRsync\<close> false,
  \<open>rsync\<close> found) should run \<open>rsync\<close> from \<open>user@host:remotepath\<close> to the local
  path. The recursive branch of \<open>processTask\<close> calls \<open>engine.UploadFile\<close> whatever
  the task type is: on the task below, the command that is run has the remote path
  \<open>/srv/data\<close> as a local source and \<open>alice@example.org:/home/me/data\<close> as its
  destination.
\<close>

theorem C1_download_directory_runs_rsync_as_upload:
  "map_option (\<lambda>pw. (Type (w_task (snd pw)), p_engine (fst pw), w_calls (snd pw)))
     (run (exEnv False) (exDirSchedule None)
        (exStart (newTask 1 TaskDownloadDirectory ''/srv/data'' ''/home/me/data'' ''data'') 16))
   = Some (TaskDownloadDirectory, RsyncEngine,
       [RsyncCmd [''rsync'', ''-avz'', ''--info=progress2'', ''-e'', exSshOpts,
                  ''/srv/data'', ''alice@example.org:/home/me/data'']])"
  by code_simp

text \<open>
  Claim C2, as stated, fails: with \<open>DisableRsync\<close> false and \<open>rsync\<close> found, the
  upload of the single file \<open>/tmp/a.txt\<close> is carried out by the rsync engine.
\<close>

theorem C2_single_file_uses_rsync:
  "map_option (\<lambda>pw. (p_engine (fst pw), State (w_task (snd pw)), w_calls (snd pw)))
     (run (exEnv False) (exFileSchedule 6 None)
        (exStart (newTask 1 TaskUploadFile ''/tmp/a.txt'' ''/home/u/a.txt'' ''a.txt'') 16))
   = Some (RsyncEngine, TaskCompleted,
       [RsyncCmd [''rsync'', ''-avz'', ''--info=progress2'', ''-e'', exSshOpts,
                  ''/tmp/a.txt'', ''alice@example.org:/home/u/a.txt'']])"
  by code_simp

text \<open>
  Claim C2, amended. When \<open>DisableRsync\<close> is false and \<open>rsync\<close> is found, the engine
  of a single-file task is the rsync engine as well (\<open>NewTransferEngine\<close> does not look
  at the task type): the task does not take the recursive branch, it goes on to the scan,
  and the executor transfers its file job with the rsync engine, in the direction of the
  task.
\<close>

theorem C2_engine_ignores_task_kind:
  assumes "\<not> DisableRsync (e_settings env)"
    and "Type (w_task w) = TaskUploadFile \<or> Type (w_task w) = TaskDownloadFile"
    and "\<not> ctxCancelled (w_task w)"
    and "\<not> IsDir job"
  shows "p_engine (fst (start_step env now None (p, w))) = RsyncEngine
    \<and> p_useRsync (fst (start_step env now None (p, w))) = False
    \<and> p_pc (fst (start_step env now None (p, w))) = PScan
    \<and> fst (snd (makeExecutor (Type (w_task w)) False RsyncEngine cfg os job)) =
        map_sum id RsyncCmd
          (runRsync cfg os (AbsPath job) (DestPath job) (Type (w_task w) = TaskUploadFile))"
  using assms
  by (auto simp: start_step_def NewTransferEngine_def usesRsync_def Let_def makeExecutor_def)

theorem C2_engine_ignores_task_kind_witness:
  "\<not> DisableRsync (e_settings (exEnv False))
   \<and> Type (w_task (snd (exStart (newTask 1 TaskUploadFile ''/tmp/a.txt'' ''/home/u/a.txt'' ''a.txt'') 16)))
       = TaskUploadFile
   \<and> \<not> IsDir exJob
   \<and> p_engine (fst (start_step (exEnv False) 0 None
         (exStart (newTask 1 TaskUploadFile ''/tmp/a.txt'' ''/home/u/a.txt'' ''a.txt'') 16))) = RsyncEngine
   \<and> fst (snd (makeExecutor TaskUploadFile False RsyncEngine exCfg exOs exJob)) =
       Inr (RsyncCmd [''rsync'', ''-avz'', ''--info=progress2'', ''-e'', exSshOpts,
                      ''/tmp/a.txt'', ''alice@example.org:/home/u/a.txt''])"
proof -
  let ?w = "snd (exStart (newTask 1 TaskUploadFile ''/tmp/a.txt'' ''/home/u/a.txt'' ''a.txt'') 16)"
  have h1: "\<not> DisableRsync (e_settings (exEnv False))" by (simp add: exEnv_def)
  have h2: "Type (w_task ?w) = TaskUploadFile \<or> Type (w_task ?w) = TaskDownloadFile"
    by (simp add: exStart_def world_init_def newTask_def)
  have h3: "\<not> ctxCancelled (w_task ?w)"
    by (simp add: exStart_def world_init_def newTask_def)
  have h4: "\<not> IsDir exJob" by (simp add: exJob_def)
  have ty: "Type (w_task ?w) = TaskUploadFile"
    by (simp add: exStart_def world_init_def newTask_def)
  have pw: "exStart (newTask 1 TaskUploadFile ''/tmp/a.txt'' ''/home/u/a.txt'' ''a.txt'') 16 = (proc_init, ?w)"
    by (simp add: exStart_def)
  have rs: "runRsync exCfg exOs (AbsPath exJob) (DestPath exJob) True =
      Inr [''rsync'', ''-avz'', ''--info=progress2'', ''-e'', exSshOpts,
           ''/tmp/a.txt'', ''alice@example.org:/home/u/a.txt'']"
    by code_simp
  from C2_engine_ignores_task_kind [OF h1 h2 h3 h4, of 0 proc_init exCfg exOs]
  show ?thesis using h1 h4 ty pw rs by simp
qed

section \<open>Admission: QueueTask on a full channel\<close>

text \<open>
  What \<open>QueueTask\<close> does when the admission channel is full, in general: it returns a
  nil task and the queue-full error and leaves the admission channel as it was; by then it
  has appended the new Pending task to the task list, advanced \<open>nextID\<close> by one, and
  offered the Pending snapshot of that task to the out-channel.
\<close>

lemma QueueTask_on_full_channel:
  assumes "\<not> hasRoom (taskChan q)"
  shows "snd (QueueTask now ty src dst nm q) = (None, Some ''task queue full'')
    \<and> taskChan (fst (QueueTask now ty src dst nm q)) = taskChan q
    \<and> nextID (fst (QueueTask now ty src dst nm q)) = nextID q + 1
    \<and> tasks (fst (QueueTask now ty src dst nm q)) =
        tasks q @ [fst (notifyTask now (newTask (nextID q) ty src dst nm))]
    \<and> State (fst (notifyTask now (newTask (nextID q) ty src dst nm))) = TaskPending
    \<and> ID (fst (notifyTask now (newTask (nextID q) ty src dst nm))) = nextID q
    \<and> updateChan (fst (QueueTask now ty src dst nm q)) =
        (if hasRoom (updateChan q)
         then push (snd (notifyTask now (newTask (nextID q) ty src dst nm))) (updateChan q)
         else updateChan q)
    \<and> PState (snd (notifyTask now (newTask (nextID q) ty src dst nm))) = TaskPending
    \<and> TaskID (snd (notifyTask now (newTask (nextID q) ty src dst nm))) = nextID q"
  using assms
  by (simp add: QueueTask_def Let_def notify_def split_beta hasRoom_def notifyTask_def
      buildProgress_def newTask_def)

text \<open>
  Claim C3. A \<open>QueueTask\<close> that finds the admission channel full should fail with the
  queue-full error and leave the queue as it was. It does return the error (and logs that
  it drops the task), but only after it has allocated the identifier, appended the task
  and published its Pending snapshot, and nothing is undone: on \<open>exQueue\<close> (capacity
  2, two tasks waiting) the third call returns nil and the queue-full error with the
  admission channel unchanged, and yet the task list has grown from 2 to 3 tasks, the
  rejected task 3 staying Pending in it, \<open>nextID\<close> has moved from 3 to 4, and a Pending
  snapshot of task 3 is on the out-channel.
\<close>

theorem C3_rejected_task_is_recorded:
  "map_sum id
     (\<lambda>q. (snd (QueueTask 0 TaskUploadFile ''3'' ''3'' ''3'' q),
           taskChan (fst (QueueTask 0 TaskUploadFile ''3'' ''3'' ''3'' q)) = taskChan q,
           map (\<lambda>t. (ID t, State t)) (tasks q),
           map (\<lambda>t. (ID t, State t)) (tasks (fst (QueueTask 0 TaskUploadFile ''3'' ''3'' ''3'' q))),
           nextID q,
           nextID (fst (QueueTask 0 TaskUploadFile ''3'' ''3'' ''3'' q)),
           map (\<lambda>x. (TaskID x, PState x)) (buf (updateChan q)),
           map (\<lambda>x. (TaskID x, PState x))
             (buf (updateChan (fst (QueueTask 0 TaskUploadFile ''3'' ''3'' ''3'' q))))))
     exQueue
   = Inr ((None, Some ''task queue full''), True,
          [(1, TaskPending), (2, TaskPending)],
          [(1, TaskPending), (2, TaskPending), (3, TaskPending)],
          3, 4,
          [(1, TaskPending), (2, TaskPending)],
          [(1, TaskPending), (2, TaskPending), (3, TaskPending)])"
  by code_simp

section \<open>Snapshots under backpressure\<close>

text \<open>
  Claim C4, as stated, fails: with an out-channel of capacity 1 that nobody reads, the
  Scanning snapshot fills the channel, and the Transferring snapshot and the terminal
  Completed snapshot are both dropped.
\<close>

theorem C4_terminal_snapshot_dropped:
  "map_option (\<lambda>pw. (State (w_task (snd pw)), map PState (buf (w_chan (snd pw))),
        map (\<lambda>xb. (PState (fst xb), snd xb)) (w_log (snd pw))))
     (run (exEnv True) (exFileSchedule 6 None)
        (exStart (newTask 1 TaskUploadFile ''/tmp/a.txt'' ''/home/u/a.txt'' ''a.txt'') 1))
   = Some (TaskCompleted, [TaskScanning],
       [(TaskScanning, True), (TaskTransferring, False), (TaskCompleted, False)])"
  by code_simp

text \<open>
  Claim C4, amended. Every snapshot that \<open>notify\<close> publishes, the terminal one
  included, is sent without blocking: it is put on the out-channel when the channel has
  room and dropped when the channel is full. In particular the deferred function of
  \<open>processTask\<close> always completes, and the terminal snapshot reaches the channel
  exactly when the channel has room at that moment.
\<close>

theorem C4_notify_never_blocks:
  assumes "p_pc p = PFinish"
  shows "snd (notify now (task, ch)) =
           (if hasRoom ch then push (snd (notifyTask now task)) ch else ch)
    \<and> main_step env (MNow now) (p, w) =
        Some (p\<lparr>p_pc := PDone,
                p_final := Some (snd (notifyTask now (finishTask (p_result p) (w_task w))))\<rparr>,
              w\<lparr>w_task := fst (notifyTask now (finishTask (p_result p) (w_task w))),
                w_chan := (if hasRoom (w_chan w)
                           then push (snd (notifyTask now (finishTask (p_result p) (w_task w)))) (w_chan w)
                           else w_chan w),
                w_log := w_log w @
                  [(snd (notifyTask now (finishTask (p_result p) (w_task w))), hasRoom (w_chan w))]\<rparr>)"
  using assms
  by (simp add: notify_def main_step_def w_notify_def split_beta Let_def)

theorem C4_notify_never_blocks_witness:
  "p_pc (proc_init\<lparr>p_pc := PFinish\<rparr>) = PFinish
   \<and> map_option (\<lambda>pw. (p_pc (fst pw), buf (w_chan (snd pw)), map snd (w_log (snd pw))))
       (main_step (exEnv True) (MNow 0)
          (proc_init\<lparr>p_pc := PFinish\<rparr>,
           world_init (newTask 1 TaskUploadFile ''/tmp/a.txt'' ''/home/u/a.txt'' ''a.txt'')
             \<lparr>buf = [], cap = 0\<rparr>))
     = Some (PDone, [], [False])"
proof -
  have h: "p_pc (proc_init\<lparr>p_pc := PFinish\<rparr>) = PFinish" by simp
  from C4_notify_never_blocks [OF h, of 0 _ _ "exEnv True"
      "world_init (newTask 1 TaskUploadFile ''/tmp/a.txt'' ''/home/u/a.txt'' ''a.txt'') \<lparr>buf = [], cap = 0\<rparr>"]
  show ?thesis by (simp add: world_init_def hasRoom_def)
qed

section \<open>The terminal snapshot of a completed task\<close>

text \<open>
  Claim C7. A task whose transfer ends with no error and no cancellation should publish
  a terminal snapshot with state completed, \<open>completedFiles = totalFiles\<close>,
  \<open>bytesTransferred = totalBytes\<close> and \<open>percentage = 100\<close>. The deferred function
  sets \<open>task.Progress.Percentage = 100\<close>, but \<open>notify\<close> never reads that field: it
  starts from 0 and computes the percentage only when \<open>TotalSize > 0\<close>. On the directory
  upload below (rsync engine, result nil) the task holds \<open>Percentage = 100\<close> and the
  terminal snapshot is Completed, 1 of 1 files, 0 of 0 bytes, with \<open>Percentage = 0\<close>.
\<close>

theorem C7_completed_snapshot_percentage_zero:
  "map_option (\<lambda>pw. (Percentage (Progress (w_task (snd pw))),
        map_option (\<lambda>x. (PState x, CompletedFiles x, TotalFiles x, BytesTransferred x,
                           TotalSize x, Percentage x)) (p_final (fst pw))))
     (run (exEnv False) (exDirSchedule None)
        (exStart (newTask 1 TaskUploadDirectory ''/tmp/t'' ''/home/u/t'' ''t'') 16))
   = Some (100, Some (TaskCompleted, 1, 1, 0, 0, 0))"
  by code_simp

section \<open>The file queue: counters and callbacks\<close>

lemma sum_list_update_group:
  fixes f :: "'a \<Rightarrow> 'b::ab_group_add"
  shows "i < length xs \<Longrightarrow>
    sum_list (map f (xs[i := y])) = sum_list (map f xs) - f (xs ! i) + f y"
  by (induction xs arbitrary: i) (auto split: nat.splits)

lemma filesOf_update:
  "i < length gs \<Longrightarrow>
   filesOf (gs[i := g]) =
     filesOf gs - (if countedFile (g_phase (gs ! i)) then 1 else 0)
       + (if countedFile (g_phase g) then 1 else 0)"
proof -
  have eq: "\<And>hs. filesOf hs = sum_list (map (\<lambda>g. if countedFile (g_phase g) then 1 else (0::int)) hs)"
    unfolding filesOf_def by (induct_tac hs) auto
  assume "i < length gs"
  then show ?thesis
    by (simp add: eq sum_list_update_group)
qed

lemma bytesOf_update:
  "i < length gs \<Longrightarrow>
   bytesOf (gs[i := g]) = bytesOf gs - byteCount (g_phase (gs ! i)) + byteCount (g_phase g)"
  by (simp add: bytesOf_def sum_list_update_group)

lemma pj_inv_init: "pj_inv (pj_init js)"
  by (simp add: pj_inv_def pj_init_def filesOf_def bytesOf_def cbLogOk_def)

lemma cbLogOk_snoc: "cbLogOk gs cl \<Longrightarrow> cbLogOk (gs @ [g]) cl"
  by (auto simp: cbLogOk_def nth_append)

lemma cbLogOk_update:
  assumes "cbLogOk gs cl" and "i < length gs"
    and "calledBack (g_phase (gs ! i)) \<longrightarrow> calledBack (g_phase g)"
  shows "cbLogOk (gs[i := g]) cl"
  using assms by (auto simp: cbLogOk_def nth_list_update)

lemma cbLogOk_log:
  assumes "cbLogOk gs cl" and "i < length gs" and "calledBack (g_phase g)"
  shows "cbLogOk (gs[i := g]) (cl @ [(i, x)])"
  using assms by (auto simp: cbLogOk_def nth_list_update)

lemma filesOf_snoc: "filesOf (gs @ [g]) = filesOf gs + (if countedFile (g_phase g) then 1 else 0)"
  by (simp add: filesOf_def)

lemma bytesOf_snoc: "bytesOf (gs @ [g]) = bytesOf gs + byteCount (g_phase g)"
  by (simp add: bytesOf_def)

lemma pj_inv_loop:
  assumes "pj_loop_step conc c s = Some s'" and "pj_inv s"
  shows "pj_inv s'"
  using assms
  by (auto simp: pj_loop_step_def pj_inv_def filesOf_snoc bytesOf_snoc cbLogOk_snoc
      split: lphase.splits list.splits if_splits)

lemma pj_inv_go:
  assumes "pj_go_step c exec cb i inp (s, u) = Some (s', u')" and "pj_inv s"
  shows "pj_inv s'"
proof -
  from assms(1) have i: "i < length (pj_gos s)"
    by (auto simp: pj_go_step_def Let_def split: if_splits)
  show ?thesis
  proof (cases "g_phase (pj_gos s ! i)")
    case GStart
    with assms i show ?thesis
      by (auto simp: pj_go_step_def Let_def pj_inv_def setPhase_def filesOf_update bytesOf_update
          cbLogOk_update cbLogOk_log)
  next
    case GExec
    with assms i show ?thesis
      by (auto simp: pj_go_step_def Let_def pj_inv_def setPhase_def latch_def logExec_def
          filesOf_update bytesOf_update cbLogOk_update cbLogOk_log
          split: prod.splits option.splits)
  next
    case (GSucc w)
    with assms i show ?thesis
      by (auto simp: pj_go_step_def Let_def pj_inv_def setPhase_def filesOf_update bytesOf_update
          cbLogOk_update cbLogOk_log)
  next
    case (GFd w fd)
    with assms i show ?thesis
      by (auto simp: pj_go_step_def Let_def pj_inv_def setPhase_def filesOf_update bytesOf_update
          cbLogOk_update cbLogOk_log split: option.splits)
  next
    case (GCb w fd bd k)
    with assms i show ?thesis
      by (auto simp: pj_go_step_def Let_def pj_inv_def setPhase_def filesOf_update bytesOf_update
          cbLogOk_update cbLogOk_log split: option.splits if_splits)
  next
    case (GDone out)
    with assms i show ?thesis by (auto simp: pj_go_step_def Let_def)
  qed
qed

lemma pj_step_inv:
  assumes "pj_step conc exec cb a (c, s, u) = Some (c', s', u')" and "pj_inv s"
  shows "pj_inv s'"
  using assms
  by (cases a) (auto simp: pj_step_def dest: pj_inv_loop pj_inv_go)

lemma pj_run_inv:
  assumes "pj_run conc exec cb sched (c, s, u) = Some (c', s', u')" and "pj_inv s"
  shows "pj_inv s'"
  using assms
proof (induction sched arbitrary: c s u)
  case Nil
  then show ?case by simp
next
  case (Cons a sched)
  from Cons.prems(1) obtain c1 s1 u1 where
      st: "pj_step conc exec cb a (c, s, u) = Some (c1, s1, u1)"
      and rest: "pj_run conc exec cb sched (c1, s1, u1) = Some (c', s', u')"
    by (auto split: option.splits)
  from pj_step_inv [OF st Cons.prems(2)] have "pj_inv s1" .
  from Cons.IH [OF rest this] show ?case .
qed

subsection \<open>The log of the executor's returns\<close>

lemma count_update:
  "i < length gs \<Longrightarrow>
   int (length (filter P (gs[i := g]))) =
     int (length (filter P gs)) - (if P (gs ! i) then 1 else 0) + (if P g then 1 else 0)"
proof -
  have eq: "\<And>hs. int (length (filter P hs)) = sum_list (map (\<lambda>g. if P g then 1 else (0::int)) hs)"
    by (induct_tac hs) auto
  assume "i < length gs"
  then show ?thesis by (simp add: eq sum_list_update_group)
qed

lemma entries_snoc: "entries i (rs @ [(j, x)]) = (if j = i then entries i rs @ [x] else entries i rs)"
  by (simp add: entries_def)

lemma entries_beyond: "\<forall>r \<in> set rs. fst r < n \<Longrightarrow> entries n rs = []"
  by (auto simp: entries_def filter_empty_conv)

lemma execLogOk_init: "execLogOk (pj_init js)"
  by (simp add: execLogOk_def pj_init_def)

lemma tallyOk_init: "tallyOk (pj_init js)"
  by (simp add: tallyOk_def pj_init_def okRets_def)

lemma execLogOk_loop:
  assumes "pj_loop_step conc c s = Some s'" and "execLogOk s"
  shows "execLogOk s'"
proof -
  from assms(1) consider
      (same) "pj_gos s' = pj_gos s" "pj_execLog s' = pj_execLog s"
    | (start) j where "pj_gos s' = pj_gos s @ [\<lparr>g_job = j, g_phase = GStart\<rparr>]"
        "pj_execLog s' = pj_execLog s"
    by (auto simp: pj_loop_step_def split: lphase.splits list.splits if_splits)
  then show ?thesis
  proof cases
    case same
    with assms(2) show ?thesis by (simp add: execLogOk_def)
  next
    case start
    from assms(2) have b: "\<forall>r \<in> set (pj_execLog s). fst r < length (pj_gos s)"
      by (simp add: execLogOk_def)
    from entries_beyond [OF b] have "entries (length (pj_gos s)) (pj_execLog s) = []" .
    with assms(2) start show ?thesis
      by (auto simp: execLogOk_def nth_append logOf_def less_Suc_eq)
  qed
qed

lemma tallyOk_loop:
  assumes "pj_loop_step conc c s = Some s'" and "tallyOk s"
  shows "tallyOk s'"
  using assms
  by (auto simp: pj_loop_step_def tallyOk_def split: lphase.splits list.splits if_splits)

lemma go_step_shape:
  assumes "pj_go_step c exec cb i inp (s, u) = Some (s', u')"
  shows "i < length (pj_gos s)
    \<and> (\<exists>ph. pj_gos s' = (pj_gos s)[i := (pj_gos s ! i)\<lparr>g_phase := ph\<rparr>]
          \<and> (if g_phase (pj_gos s ! i) = GExec
              then pj_execLog s' = pj_execLog s @ [(i, fst (exec (g_job (pj_gos s ! i)) inp u))]
                \<and> returned ph = (case snd (fst (exec (g_job (pj_gos s ! i)) inp u)) of
                      Some e \<Rightarrow> Some (Inl e)
                    | None \<Rightarrow> Some (Inr (fst (fst (exec (g_job (pj_gos s ! i)) inp u)))))
              else pj_execLog s' = pj_execLog s \<and> returned ph = returned (g_phase (pj_gos s ! i))))"
proof -
  from assms have i: "i < length (pj_gos s)"
    by (auto simp: pj_go_step_def Let_def split: if_splits)
  show ?thesis
  proof (cases "g_phase (pj_gos s ! i)")
    case GStart
    with assms i show ?thesis
      by (auto simp: pj_go_step_def Let_def setPhase_def)
  next
    case GExec
    with assms i show ?thesis
      by (auto simp: pj_go_step_def Let_def setPhase_def latch_def logExec_def
          split: prod.splits option.splits)
  next
    case (GSucc w)
    with assms i show ?thesis
      by (auto simp: pj_go_step_def Let_def setPhase_def)
  next
    case (GFd w fd)
    with assms i show ?thesis
      by (auto simp: pj_go_step_def Let_def setPhase_def split: option.splits)
  next
    case (GCb w fd bd k)
    with assms i show ?thesis
      by (auto simp: pj_go_step_def Let_def setPhase_def split: option.splits if_splits)
  next
    case (GDone out)
    with assms i show ?thesis by (auto simp: pj_go_step_def Let_def)
  qed
qed

lemma logOf_returned: "returned ph' = returned ph \<Longrightarrow> logOf ph' rs = logOf ph rs"
  by (simp add: logOf_def)

lemma execLogOk_go:
  assumes st: "pj_go_step c exec cb i inp (s, u) = Some (s', u')" and ok: "execLogOk s"
  shows "execLogOk s'"
proof -
  let ?g = "pj_gos s ! i"
  let ?r = "fst (exec (g_job ?g) inp u)"
  from go_step_shape [OF st] obtain ph where i: "i < length (pj_gos s)"
      and gos: "pj_gos s' = (pj_gos s)[i := ?g\<lparr>g_phase := ph\<rparr>]"
      and sh: "if g_phase ?g = GExec
          then pj_execLog s' = pj_execLog s @ [(i, ?r)]
            \<and> returned ph = (case snd ?r of Some e \<Rightarrow> Some (Inl e) | None \<Rightarrow> Some (Inr (fst ?r)))
          else pj_execLog s' = pj_execLog s \<and> returned ph = returned (g_phase ?g)"
    by blast
  from ok have b: "\<forall>r \<in> set (pj_execLog s). fst r < length (pj_gos s)"
      and l: "\<And>j. j < length (pj_gos s) \<Longrightarrow> logOf (g_phase (pj_gos s ! j)) (entries j (pj_execLog s))"
    by (simp_all add: execLogOk_def)
  show ?thesis
  proof (cases "g_phase ?g = GExec")
    case True
    with sh have log: "pj_execLog s' = pj_execLog s @ [(i, ?r)]"
        and ret: "returned ph = (case snd ?r of Some e \<Rightarrow> Some (Inl e) | None \<Rightarrow> Some (Inr (fst ?r)))"
      by simp_all
    from l [OF i] True have e0: "entries i (pj_execLog s) = []" by (simp add: logOf_def)
    have new: "logOf ph [?r]"
    proof (cases "snd ?r")
      case None
      then have "?r = (fst ?r, None)" by (metis prod.collapse)
      with None ret show ?thesis by (simp add: logOf_def)
    next
      case (Some e)
      with ret show ?thesis by (simp add: logOf_def)
    qed
    have "\<forall>j < length (pj_gos s'). logOf (g_phase (pj_gos s' ! j)) (entries j (pj_execLog s'))"
    proof (intro allI impI)
      fix j assume "j < length (pj_gos s')"
      then have j: "j < length (pj_gos s)" by (simp add: gos)
      show "logOf (g_phase (pj_gos s' ! j)) (entries j (pj_execLog s'))"
      proof (cases "j = i")
        case True
        with i new e0 show ?thesis by (simp add: gos log entries_snoc)
      next
        case False
        with l [OF j] show ?thesis by (simp add: gos log entries_snoc)
      qed
    qed
    moreover from b i have "\<forall>r \<in> set (pj_execLog s'). fst r < length (pj_gos s')"
      by (auto simp: gos log)
    ultimately show ?thesis by (simp add: execLogOk_def)
  next
    case False
    with sh have log: "pj_execLog s' = pj_execLog s"
        and ret: "returned ph = returned (g_phase ?g)"
      by simp_all
    have "\<forall>j < length (pj_gos s'). logOf (g_phase (pj_gos s' ! j)) (entries j (pj_execLog s'))"
    proof (intro allI impI)
      fix j assume "j < length (pj_gos s')"
      then have j: "j < length (pj_gos s)" by (simp add: gos)
      show "logOf (g_phase (pj_gos s' ! j)) (entries j (pj_execLog s'))"
      proof (cases "j = i")
        case True
        with i l [OF i] logOf_returned [OF ret] show ?thesis by (simp add: gos log)
      next
        case False
        with l [OF j] show ?thesis by (simp add: gos log)
      qed
    qed
    moreover from b have "\<forall>r \<in> set (pj_execLog s'). fst r < length (pj_gos s')"
      by (simp add: gos log)
    ultimately show ?thesis by (simp add: execLogOk_def)
  qed
qed

lemma tallyOk_go:
  assumes st: "pj_go_step c exec cb i inp (s, u) = Some (s', u')" and ok: "tallyOk s"
  shows "tallyOk s'"
proof -
  from st have i: "i < length (pj_gos s)"
    by (auto simp: pj_go_step_def Let_def split: if_splits)
  show ?thesis
  proof (cases "g_phase (pj_gos s ! i)")
    case GStart
    with st ok i show ?thesis
      by (auto simp: pj_go_step_def Let_def tallyOk_def setPhase_def count_update
          sum_list_update_group)
  next
    case GExec
    with st ok i show ?thesis
      by (auto simp: pj_go_step_def Let_def tallyOk_def setPhase_def latch_def logExec_def
          okRets_def count_update sum_list_update_group split: prod.splits option.splits)
  next
    case (GSucc w)
    with st ok i show ?thesis
      by (auto simp: pj_go_step_def Let_def tallyOk_def setPhase_def count_update
          sum_list_update_group)
  next
    case (GFd w fd)
    with st ok i show ?thesis
      by (auto simp: pj_go_step_def Let_def tallyOk_def setPhase_def count_update
          sum_list_update_group split: option.splits)
  next
    case (GCb w fd bd k)
    with st ok i show ?thesis
      by (auto simp: pj_go_step_def Let_def tallyOk_def setPhase_def count_update
          sum_list_update_group split: option.splits if_splits)
  next
    case (GDone out)
    with st i show ?thesis by (auto simp: pj_go_step_def Let_def)
  qed
qed

lemma exec_run_inv:
  assumes "pj_run conc exec cb sched (c, s, u) = Some (c', s', u')"
    and "execLogOk s" and "tallyOk s"
  shows "execLogOk s' \<and> tallyOk s'"
  using assms
proof (induction sched arbitrary: c s u)
  case Nil
  then show ?case by simp
next
  case (Cons a sched)
  from Cons.prems(1) obtain ca sa ua where
      st: "pj_step conc exec cb a (c, s, u) = Some (ca, sa, ua)"
      and rest: "pj_run conc exec cb sched (ca, sa, ua) = Some (c', s', u')"
    by (auto split: option.splits)
  from st Cons.prems(2,3) have "execLogOk sa \<and> tallyOk sa"
    by (cases a)
      (auto simp: pj_step_def dest: execLogOk_loop execLogOk_go tallyOk_loop tallyOk_go)
  with Cons.IH [OF rest] show ?case by simp
qed

lemma pending_done:
  assumes "\<forall>g \<in> set gs. isDone (g_phase g)"
  shows "filter (\<lambda>g. fdPending (g_phase g)) gs = []"
    and "sum_list (map (\<lambda>g. bytesPending (g_phase g)) gs) = 0"
proof -
  have a: "\<And>ph. isDone ph \<Longrightarrow> \<not> fdPending ph \<and> bytesPending ph = 0"
  proof -
    fix ph show "isDone ph \<Longrightarrow> \<not> fdPending ph \<and> bytesPending ph = 0" by (cases ph) auto
  qed
  from assms a show "filter (\<lambda>g. fdPending (g_phase g)) gs = []"
    by (auto simp: filter_empty_conv)
  from assms a have "\<forall>x \<in> set (map (\<lambda>g. bytesPending (g_phase g)) gs). x = 0" by simp
  then show "sum_list (map (\<lambda>g. bytesPending (g_phase g)) gs) = 0"
    by (induction gs) simp_all
qed

lemma returned_failed: "returned ph = Some (Inl e) \<Longrightarrow> ph = GDone (Failed e)"
proof (cases ph)
  case (GDone out)
  assume "returned ph = Some (Inl e)"
  with GDone show ?thesis by (cases out) simp_all
qed simp_all

lemma returned_ok:
  "countedFile ph \<or> byteCount ph \<noteq> 0 \<or> calledBack ph \<Longrightarrow> \<exists>w. returned ph = Some (Inr w)"
proof (cases ph)
  case (GDone out)
  assume "countedFile ph \<or> byteCount ph \<noteq> 0 \<or> calledBack ph"
  with GDone show ?thesis by (cases out) simp_all
qed simp_all

lemma entries_mem: "x \<in> set (entries i rs) \<longleftrightarrow> (i, x) \<in> set rs"
  by (auto simp: entries_def image_iff)

lemma logged_failure:
  assumes ok: "execLogOk s" and m: "(i, w, Some e) \<in> set (pj_execLog s)"
  shows "i < length (pj_gos s) \<and> g_phase (pj_gos s ! i) = GDone (Failed e)"
proof -
  from ok m have i: "i < length (pj_gos s)" by (force simp: execLogOk_def)
  with ok have l: "logOf (g_phase (pj_gos s ! i)) (entries i (pj_execLog s))"
    by (simp add: execLogOk_def)
  from m have x: "(w, Some e) \<in> set (entries i (pj_execLog s))" by (simp add: entries_mem)
  have "returned (g_phase (pj_gos s ! i)) = Some (Inl e)"
  proof (cases "returned (g_phase (pj_gos s ! i))")
    case None
    with l x show ?thesis by (simp add: logOf_def)
  next
    case (Some v)
    show ?thesis
    proof (cases v)
      case (Inl e')
      with Some l x show ?thesis
        by (auto simp: logOf_def split: list.splits)
    next
      case (Inr w')
      with Some l x show ?thesis by (simp add: logOf_def)
    qed
  qed
  from returned_failed [OF this] i show ?thesis by simp
qed

lemma logged_success:
  assumes ok: "execLogOk s" and i: "i < length (pj_gos s)"
    and r: "returned (g_phase (pj_gos s ! i)) = Some (Inr w)"
  shows "(i, w, None) \<in> set (pj_execLog s)"
proof -
  from ok i have "logOf (g_phase (pj_gos s ! i)) (entries i (pj_execLog s))"
    by (simp add: execLogOk_def)
  with r have "(w, None) \<in> set (entries i (pj_execLog s))" by (simp add: logOf_def)
  then show ?thesis by (simp add: entries_mem)
qed

text \<open>
  Claim C10. In every configuration that \<open>ProcessJobs\<close> reaches, under every
  schedule, executor and callback, with \<open>pj_execLog\<close> the returns of the executor
  calls so far (the last two conjuncts: a step of a goroutine that is in its executor
  call appends what \<open>exec\<close> returns, and no other step changes the log):
  a job whose executor returned an error is not counted in \<open>filesDone\<close>, has added no
  bytes to \<open>bytesDone\<close>, and \<open>updateFn\<close> was not called for it; every job that is
  counted, or has added bytes, or for which \<open>updateFn\<close> was called, had its executor
  return \<open>nil\<close>; \<open>filesDone\<close> and \<open>bytesDone\<close> are the contributions of the
  goroutines that passed the increments; \<open>filesDone\<close> never exceeds the number of
  \<open>nil\<close> returns; and once every goroutine has ended, \<open>filesDone\<close> is the number of
  executor calls that returned \<open>nil\<close> and \<open>bytesDone\<close> the sum of their byte counts.
\<close>

theorem C10_failed_jobs_are_not_counted:
  assumes "pj_run conc exec cb sched (c0, pj_init jobs, u0) = Some (c, s, u)"
  shows "(\<forall>i w e. (i, w, Some e) \<in> set (pj_execLog s) \<longrightarrow>
            i < length (pj_gos s) \<and> \<not> countedFile (g_phase (pj_gos s ! i))
            \<and> byteCount (g_phase (pj_gos s ! i)) = 0 \<and> i \<notin> fst ` set (pj_cbLog s))
    \<and> (\<forall>i < length (pj_gos s).
          countedFile (g_phase (pj_gos s ! i)) \<or> byteCount (g_phase (pj_gos s ! i)) \<noteq> 0 \<longrightarrow>
          (\<exists>w. (i, w, None) \<in> set (pj_execLog s)))
    \<and> (\<forall>x \<in> set (pj_cbLog s). \<exists>w. (fst x, w, None) \<in> set (pj_execLog s))
    \<and> pj_filesDone s = int (length (filter (\<lambda>g. countedFile (g_phase g)) (pj_gos s)))
    \<and> pj_bytesDone s = sum_list (map (\<lambda>g. byteCount (g_phase g)) (pj_gos s))
    \<and> pj_filesDone s \<le> int (length (filter (\<lambda>r. snd (snd r) = None) (pj_execLog s)))
    \<and> ((\<forall>g \<in> set (pj_gos s). isDone (g_phase g)) \<longrightarrow>
          pj_filesDone s = int (length (filter (\<lambda>r. snd (snd r) = None) (pj_execLog s)))
          \<and> pj_bytesDone s
              = sum_list (map (\<lambda>r. fst (snd r)) (filter (\<lambda>r. snd (snd r) = None) (pj_execLog s))))
    \<and> (\<forall>i inp s' u'. pj_go_step c exec cb i inp (s, u) = Some (s', u') \<longrightarrow>
          pj_execLog s' =
            (if g_phase (pj_gos s ! i) = GExec
             then pj_execLog s @ [(i, fst (exec (g_job (pj_gos s ! i)) inp u))]
             else pj_execLog s))
    \<and> (\<forall>s'. pj_loop_step conc c s = Some s' \<longrightarrow> pj_execLog s' = pj_execLog s)"
proof -
  from pj_run_inv [OF assms pj_inv_init] have inv: "pj_inv s" .
  from exec_run_inv [OF assms execLogOk_init tallyOk_init]
  have ok: "execLogOk s" and tally: "tallyOk s" by simp_all
  from inv have cl: "\<forall>x \<in> set (pj_cbLog s). fst x < length (pj_gos s)
      \<and> calledBack (g_phase (pj_gos s ! fst x))"
    by (simp add: pj_inv_def cbLogOk_def)
  have c1: "\<forall>i w e. (i, w, Some e) \<in> set (pj_execLog s) \<longrightarrow>
      i < length (pj_gos s) \<and> \<not> countedFile (g_phase (pj_gos s ! i))
      \<and> byteCount (g_phase (pj_gos s ! i)) = 0 \<and> i \<notin> fst ` set (pj_cbLog s)"
  proof (intro allI impI)
    fix i w e assume "(i, w, Some e) \<in> set (pj_execLog s)"
    from logged_failure [OF ok this] have i: "i < length (pj_gos s)"
        and ph: "g_phase (pj_gos s ! i) = GDone (Failed e)" by simp_all
    from cl ph have "i \<notin> fst ` set (pj_cbLog s)" by force
    with i ph show "i < length (pj_gos s) \<and> \<not> countedFile (g_phase (pj_gos s ! i))
      \<and> byteCount (g_phase (pj_gos s ! i)) = 0 \<and> i \<notin> fst ` set (pj_cbLog s)" by simp
  qed
  have c2: "\<forall>i < length (pj_gos s).
      countedFile (g_phase (pj_gos s ! i)) \<or> byteCount (g_phase (pj_gos s ! i)) \<noteq> 0 \<longrightarrow>
      (\<exists>w. (i, w, None) \<in> set (pj_execLog s))"
  proof (intro allI impI)
    fix i assume i: "i < length (pj_gos s)"
      and "countedFile (g_phase (pj_gos s ! i)) \<or> byteCount (g_phase (pj_gos s ! i)) \<noteq> 0"
    then have "\<exists>w. returned (g_phase (pj_gos s ! i)) = Some (Inr w)"
      by (intro returned_ok) blast
    then obtain w where "returned (g_phase (pj_gos s ! i)) = Some (Inr w)" ..
    from logged_success [OF ok i this] show "\<exists>w. (i, w, None) \<in> set (pj_execLog s)" ..
  qed
  have c3: "\<forall>x \<in> set (pj_cbLog s). \<exists>w. (fst x, w, None) \<in> set (pj_execLog s)"
  proof
    fix x assume "x \<in> set (pj_cbLog s)"
    with cl have i: "fst x < length (pj_gos s)" and "calledBack (g_phase (pj_gos s ! fst x))"
      by simp_all
    then have "\<exists>w. returned (g_phase (pj_gos s ! fst x)) = Some (Inr w)"
      by (intro returned_ok) blast
    then obtain w where "returned (g_phase (pj_gos s ! fst x)) = Some (Inr w)" ..
    from logged_success [OF ok i this] show "\<exists>w. (fst x, w, None) \<in> set (pj_execLog s)" ..
  qed
  from inv have c4: "pj_filesDone s = int (length (filter (\<lambda>g. countedFile (g_phase g)) (pj_gos s)))"
    and c5: "pj_bytesDone s = sum_list (map (\<lambda>g. byteCount (g_phase g)) (pj_gos s))"
    by (simp_all add: pj_inv_def filesOf_def bytesOf_def)
  from tally have c6: "pj_filesDone s \<le> int (length (filter (\<lambda>r. snd (snd r) = None) (pj_execLog s)))"
    by (simp add: tallyOk_def okRets_def)
  have c7: "(\<forall>g \<in> set (pj_gos s). isDone (g_phase g)) \<longrightarrow>
      pj_filesDone s = int (length (filter (\<lambda>r. snd (snd r) = None) (pj_execLog s)))
      \<and> pj_bytesDone s
          = sum_list (map (\<lambda>r. fst (snd r)) (filter (\<lambda>r. snd (snd r) = None) (pj_execLog s)))"
  proof
    assume d: "\<forall>g \<in> set (pj_gos s). isDone (g_phase g)"
    from tally pending_done [OF d] show "pj_filesDone s = int (length (filter (\<lambda>r. snd (snd r) = None) (pj_execLog s)))
      \<and> pj_bytesDone s
          = sum_list (map (\<lambda>r. fst (snd r)) (filter (\<lambda>r. snd (snd r) = None) (pj_execLog s)))"
      by (simp add: tallyOk_def okRets_def)
  qed
  have c8: "\<forall>i inp s' u'. pj_go_step c exec cb i inp (s, u) = Some (s', u') \<longrightarrow>
      pj_execLog s' =
        (if g_phase (pj_gos s ! i) = GExec
         then pj_execLog s @ [(i, fst (exec (g_job (pj_gos s ! i)) inp u))]
         else pj_execLog s)"
  proof (intro allI impI)
    fix i inp s' u' assume "pj_go_step c exec cb i inp (s, u) = Some (s', u')"
    from go_step_shape [OF this] show "pj_execLog s' =
        (if g_phase (pj_gos s ! i) = GExec
         then pj_execLog s @ [(i, fst (exec (g_job (pj_gos s ! i)) inp u))]
         else pj_execLog s)"
      by (auto split: if_splits)
  qed
  have c9: "\<forall>s'. pj_loop_step conc c s = Some s' \<longrightarrow> pj_execLog s' = pj_execLog s"
    by (auto simp: pj_loop_step_def split: lphase.splits list.splits if_splits)
  from c1 c2 c3 c4 c5 c6 c7 c8 c9 show ?thesis by (intro conjI)
qed

theorem C10_failed_jobs_are_not_counted_witness:
  "\<exists>c s u. pj_run 2 exExec (Some exCb) (exPjPrefix @ exPjRest @ [PGo 0 (), PGo 0 ()])
        (False, pj_init exJobs, ()) = Some (c, s, u)
     \<and> pj_execLog s = [(1, 100, Some ''simulated error''), (0, 100, None)]
     \<and> map g_phase (pj_gos s) = [GDone (Succeeded 100), GDone (Failed ''simulated error'')]
     \<and> pj_filesDone s = 1 \<and> pj_bytesDone s = 100
     \<and> 1 \<notin> fst ` set (pj_cbLog s)"
proof -
  let ?r = "pj_run 2 exExec (Some exCb) (exPjPrefix @ exPjRest @ [PGo 0 (), PGo 0 ()])
      (False, pj_init exJobs, ())"
  have ev: "map_option (\<lambda>csu. (map g_phase (pj_gos (fst (snd csu))), pj_execLog (fst (snd csu)))) ?r
      = Some ([GDone (Succeeded 100), GDone (Failed ''simulated error'')],
              [(1, 100, Some ''simulated error''), (0, 100, None)])"
    by code_simp
  then obtain c s u where r: "?r = Some (c, s, u)"
      and ph: "map g_phase (pj_gos s) = [GDone (Succeeded 100), GDone (Failed ''simulated error'')]"
      and el: "pj_execLog s = [(1, 100, Some ''simulated error''), (0, 100, None)]"
    by (cases ?r) auto
  from ph have "\<forall>ph \<in> set (map g_phase (pj_gos s)). isDone ph" by simp
  then have d: "\<forall>g \<in> set (pj_gos s). isDone (g_phase g)" by simp
  from C10_failed_jobs_are_not_counted [OF r] have
      nc: "\<forall>i w e. (i, w, Some e) \<in> set (pj_execLog s) \<longrightarrow>
            i < length (pj_gos s) \<and> \<not> countedFile (g_phase (pj_gos s ! i))
            \<and> byteCount (g_phase (pj_gos s ! i)) = 0 \<and> i \<notin> fst ` set (pj_cbLog s)"
      and fin: "(\<forall>g \<in> set (pj_gos s). isDone (g_phase g)) \<longrightarrow>
          pj_filesDone s = int (length (filter (\<lambda>r. snd (snd r) = None) (pj_execLog s)))
          \<and> pj_bytesDone s
              = sum_list (map (\<lambda>r. fst (snd r)) (filter (\<lambda>r. snd (snd r) = None) (pj_execLog s)))"
    by blast+
  from fin d el have "pj_filesDone s = 1" and "pj_bytesDone s = 100" by simp_all
  moreover from nc el have "1 \<notin> fst ` set (pj_cbLog s)" by simp
  ultimately show ?thesis using r ph el
    by (intro exI [of _ c] exI [of _ s] exI [of _ u]) simp
qed

section \<open>The file queue: the first error\<close>









lemma setPhase_fields:
  "pj_loop (setPhase i ph s) = pj_loop s"
  "pj_jobs (setPhase i ph s) = pj_jobs s"
  "pj_firstErr (setPhase i ph s) = pj_firstErr s"
  "pj_filesDone (setPhase i ph s) = pj_filesDone s"
  "pj_bytesDone (setPhase i ph s) = pj_bytesDone s"
  "pj_errLog (setPhase i ph s) = pj_errLog s"
  "pj_cbLog (setPhase i ph s) = pj_cbLog s"
  "length (pj_gos (setPhase i ph s)) = length (pj_gos s)"
  by (simp_all add: setPhase_def)







section \<open>A task that is not cancelled fails with the first error\<close>

lemma notifyTask_task:
  "State (fst (notifyTask now t)) = State t"
  "taskErr (fst (notifyTask now t)) = taskErr t"
  "ctxCancelled (fst (notifyTask now t)) = ctxCancelled t"
  "totalFiles (fst (notifyTask now t)) = totalFiles t"
  "totalSize (fst (notifyTask now t)) = totalSize t"
  "ID (fst (notifyTask now t)) = ID t"
  "Type (fst (notifyTask now t)) = Type t"
  "CompletedFiles (Progress (fst (notifyTask now t))) = CompletedFiles (Progress t)"
  "BytesTransferred (Progress (fst (notifyTask now t))) = BytesTransferred (Progress t)"
  by (simp_all add: notifyTask_def Let_def split_beta split: option.splits)

lemma notifyTask_snap:
  "PState (snd (notifyTask now t)) = State t"
  "Error (snd (notifyTask now t)) = (case taskErr t of None \<Rightarrow> [] | Some e \<Rightarrow> e)"
  "TotalFiles (snd (notifyTask now t)) = totalFiles t"
  "CompletedFiles (snd (notifyTask now t)) = CompletedFiles (Progress t)"
  "BytesTransferred (snd (notifyTask now t)) = BytesTransferred (Progress t)"
  "TotalSize (snd (notifyTask now t)) = totalSize t"
  by (simp_all add: notifyTask_def buildProgress_def Let_def split_beta split: option.splits)

lemma w_notify_fields:
  "w_task (w_notify now w) = fst (notifyTask now (w_task w))"
  "w_calls (w_notify now w) = w_calls w"
  "w_log (w_notify now w) = w_log w @ [(snd (notifyTask now (w_task w)), hasRoom (w_chan w))]"
  by (simp_all add: w_notify_def notify_def split_beta)













lemma go_step_world:
  assumes "pj_go_step c exec cb i inp (s, u) = Some (s', u')"
    and "\<And>j x v. P v \<Longrightarrow> P (snd (exec j x v))"
    and "\<And>f fd bd k v. cb = Some f \<Longrightarrow> k < length (f fd bd) \<Longrightarrow> P v \<Longrightarrow> P ((f fd bd ! k) v)"
    and "P u"
  shows "P u'"
proof (cases "g_phase (pj_gos s ! i)")
  case GExec
  with assms(1) have "u' = snd (exec (g_job (pj_gos s ! i)) inp u)"
    by (auto simp: pj_go_step_def Let_def split: if_splits prod.splits option.splits)
  with assms(2) [OF assms(4)] show ?thesis by simp
next
  case (GCb w fd bd k)
  with assms(1) obtain f where "cb = Some f"
      and "u' = u \<or> (k < length (f fd bd) \<and> u' = (f fd bd ! k) u)"
    by (auto simp: pj_go_step_def Let_def split: if_splits option.splits)
  with assms(3) [OF _ _ assms(4)] assms(4) show ?thesis by auto
next
  case GStart
  with assms(1,4) show ?thesis by (auto simp: pj_go_step_def Let_def split: if_splits)
next
  case (GSucc w)
  with assms(1,4) show ?thesis by (auto simp: pj_go_step_def Let_def split: if_splits)
next
  case (GFd w fd)
  with assms(1,4) show ?thesis
    by (auto simp: pj_go_step_def Let_def split: if_splits option.splits)
next
  case (GDone out)
  with assms(1,4) show ?thesis by (auto simp: pj_go_step_def Let_def split: if_splits)
qed






subsection \<open>The errors of the executor calls of a task\<close>















section \<open>Snapshots stay within the totals\<close>

subsection \<open>The scanners do not wrap around\<close>

lemma sint_add_fits:
  fixes a b :: int64
  assumes "0 \<le> sint a + sint b" and "sint a + sint b < 2 ^ 63"
  shows "sint (a + b) = sint a + sint b"
proof -
  have "sint (a + b) = signed_take_bit 63 (sint a + sint b)"
    by (simp add: sint_word_ariths)
  also have "\<dots> = sint a + sint b"
    using assms by (intro signed_take_bit_int_eq_self) simp_all
  finally show ?thesis .
qed

lemma sum_list_map_nonneg:
  fixes f :: "'a \<Rightarrow> int"
  shows "\<forall>x \<in> set xs. 0 \<le> f x \<Longrightarrow> 0 \<le> sum_list (map f xs)"
  by (induction xs) auto

lemma sint_lt_63: "sint (x :: int64) < 2 ^ 63"
  using sint_lt [of x] by simp

lemma fitsTotal_nil: "fitsTotal [] 0"
  by (simp add: fitsTotal_def isum_def)

lemma fitsTotal_snoc:
  assumes "fitsTotal js tot" and "0 \<le> sint (Size j)" and "sint tot + sint (Size j) < 2 ^ 63"
  shows "fitsTotal (js @ [j]) (tot + Size j)"
proof -
  from assms(1) have nn: "0 \<le> isum js" and eq: "isum js = sint tot"
    by (auto simp: fitsTotal_def isum_def dest: sum_list_map_nonneg)
  from nn eq assms(2,3) have "sint (tot + Size j) = sint tot + sint (Size j)"
    by (intro sint_add_fits) simp_all
  with assms show ?thesis
    by (simp add: fitsTotal_def isum_def)
qed

lemma filesOnly_snoc: "filesOnly (js @ [j]) = (if IsDir j then filesOnly js else filesOnly js @ [j])"
  by (simp add: filesOnly_def)

lemma scanLocalWalk_fits:
  assumes "fitsTotal (filesOnly (sr_jobs acc)) (sr_totalSize acc)"
    and "\<forall>e \<in> set es. 0 \<le> sint (le_size e)"
    and "sint (sr_totalSize acc) + sum_list (map (\<lambda>e. sint (le_size e)) es) < 2 ^ 63"
  shows "fitsTotal (filesOnly (sr_jobs (scanLocalWalk ops b r cb es acc)))
           (sr_totalSize (scanLocalWalk ops b r cb es acc))"
  using assms
proof (induction es arbitrary: acc)
  case Nil
  then show ?case by simp
next
  case (Cons e es)
  from Cons.prems(2) have e0: "0 \<le> sint (le_size e)" and es0: "\<forall>e \<in> set es. 0 \<le> sint (le_size e)"
    by simp_all
  from es0 have rest0: "0 \<le> sum_list (map (\<lambda>e. sint (le_size e)) es)"
    by (rule sum_list_map_nonneg)
  show ?case
  proof (cases "le_walkErr e")
    case (Some err)
    with Cons.prems(1) show ?thesis by simp
  next
    case None
    note walk = None
    show ?thesis
    proof (cases "le_ctxErr e")
      case (Some err)
      with walk Cons.prems(1) show ?thesis by simp
    next
      case None
      show ?thesis
      proof (cases "le_symlink e \<and> le_target e \<noteq> LinkToFile")
        case True
        from Cons.prems(3) e0 have
          "sint (sr_totalSize acc) + sum_list (map (\<lambda>e. sint (le_size e)) es) < 2 ^ 63"
          by simp
        from Cons.IH [OF Cons.prems(1) es0 this] walk None True show ?thesis by simp
      next
        case False
        let ?j = "mkJob (fp_Rel ops b (le_path e)) (le_path e)
            (fp_Join ops r (fp_Rel ops b (le_path e))) (le_size e) (le_isDir e)"
        let ?total = "if \<not> le_isDir e then sr_totalSize acc + le_size e else sr_totalSize acc"
        let ?calls = "if cb \<and> length (sr_jobs acc @ [?j]) mod 100 = 0
            then sr_progress acc @ [length (sr_jobs acc @ [?j])] else sr_progress acc"
        let ?acc = "acc\<lparr>sr_jobs := sr_jobs acc @ [?j], sr_totalSize := ?total, sr_progress := ?calls\<rparr>"
        have sz: "Size ?j = le_size e" and dir: "IsDir ?j = le_isDir e"
          by (simp_all add: mkJob_def)
        have fit: "fitsTotal (filesOnly (sr_jobs ?acc)) (sr_totalSize ?acc)"
        proof (cases "le_isDir e")
          case True
          with Cons.prems(1) dir show ?thesis by (simp add: filesOnly_snoc)
        next
          case False
          from Cons.prems(3) rest0 have "sint (sr_totalSize acc) + sint (Size ?j) < 2 ^ 63"
            by (simp add: sz)
          from fitsTotal_snoc [OF Cons.prems(1) _ this] e0 False dir sz show ?thesis
            by (simp add: filesOnly_snoc)
        qed
        have bound: "sint (sr_totalSize ?acc) + sum_list (map (\<lambda>e. sint (le_size e)) es) < 2 ^ 63"
        proof (cases "le_isDir e")
          case True
          with Cons.prems(3) e0 show ?thesis by simp
        next
          case False
          from Cons.prems(1) have "0 \<le> sint (sr_totalSize acc)"
            by (auto simp: fitsTotal_def isum_def dest: sum_list_map_nonneg)
          with Cons.prems(3) rest0 e0 have
            "sint (sr_totalSize acc + le_size e) = sint (sr_totalSize acc) + sint (le_size e)"
            by (intro sint_add_fits) simp_all
          with Cons.prems(3) False show ?thesis by simp
        qed
        from Cons.IH [OF fit es0 bound] walk None False show ?thesis
          by (auto simp: Let_def)
      qed
    qed
  qed
qed

lemma scanRemoteLoop_fits:
  assumes "fitsTotal (filesOnly (sr_jobs acc)) (sr_totalSize acc)"
    and "\<forall>e \<in> set es. 0 \<le> sint (re_size e)"
    and "sint (sr_totalSize acc) + sum_list (map (\<lambda>e. sint (re_size e)) es) < 2 ^ 63"
  shows "fitsTotal (filesOnly (sr_jobs (scanRemoteLoop ops b r cb es acc)))
           (sr_totalSize (scanRemoteLoop ops b r cb es acc))"
  using assms
proof (induction es arbitrary: acc)
  case Nil
  then show ?case by simp
next
  case (Cons e es)
  from Cons.prems(2) have e0: "0 \<le> sint (re_size e)" and es0: "\<forall>e \<in> set es. 0 \<le> sint (re_size e)"
    by simp_all
  from es0 have rest0: "0 \<le> sum_list (map (\<lambda>e. sint (re_size e)) es)"
    by (rule sum_list_map_nonneg)
  show ?case
  proof (cases "re_walkErr e")
    case (Some err)
    from Cons.prems(3) e0 have
      "sint (sr_totalSize acc) + sum_list (map (\<lambda>e. sint (re_size e)) es) < 2 ^ 63"
      by simp
    from Cons.IH [OF Cons.prems(1) es0 this] Some show ?thesis by simp
  next
    case None
    note walk = None
    show ?thesis
    proof (cases "re_ctxErr e")
      case (Some err)
      with walk show ?thesis by (simp add: filesOnly_def fitsTotal_nil)
    next
      case None
      let ?j = "mkJob (fp_Rel ops b (re_path e)) (re_path e)
          (fp_Join ops r (fp_Rel ops b (re_path e))) (re_size e) (re_isDir e)"
      let ?total = "if \<not> re_isDir e then sr_totalSize acc + re_size e else sr_totalSize acc"
      let ?calls = "if cb \<and> length (sr_jobs acc @ [?j]) mod 100 = 0
          then sr_progress acc @ [length (sr_jobs acc @ [?j])] else sr_progress acc"
      let ?acc = "acc\<lparr>sr_jobs := sr_jobs acc @ [?j], sr_totalSize := ?total, sr_progress := ?calls\<rparr>"
      have sz: "Size ?j = re_size e" and dir: "IsDir ?j = re_isDir e"
        by (simp_all add: mkJob_def)
      have fit: "fitsTotal (filesOnly (sr_jobs ?acc)) (sr_totalSize ?acc)"
      proof (cases "re_isDir e")
        case True
        with Cons.prems(1) dir show ?thesis by (simp add: filesOnly_snoc)
      next
        case False
        from Cons.prems(3) rest0 have "sint (sr_totalSize acc) + sint (Size ?j) < 2 ^ 63"
          by (simp add: sz)
        from fitsTotal_snoc [OF Cons.prems(1) _ this] e0 False dir sz show ?thesis
          by (simp add: filesOnly_snoc)
      qed
      have bound: "sint (sr_totalSize ?acc) + sum_list (map (\<lambda>e. sint (re_size e)) es) < 2 ^ 63"
      proof (cases "re_isDir e")
        case True
        with Cons.prems(3) e0 show ?thesis by simp
      next
        case False
        from Cons.prems(1) have "0 \<le> sint (sr_totalSize acc)"
          by (auto simp: fitsTotal_def isum_def dest: sum_list_map_nonneg)
        with Cons.prems(3) rest0 e0 have
          "sint (sr_totalSize acc + re_size e) = sint (sr_totalSize acc) + sint (re_size e)"
          by (intro sint_add_fits) simp_all
        with Cons.prems(3) False show ?thesis by simp
      qed
      from Cons.IH [OF fit es0 bound] walk None show ?thesis
        by (simp add: Let_def)
    qed
  qed
qed

lemma ScanLocal_fits:
  assumes "sizesFit (map le_size es)"
  shows "fitsTotal (filesOnly (sr_jobs (ScanLocal ops rs rp rr cb es)))
           (sr_totalSize (ScanLocal ops rs rp rr cb es))"
proof (cases rs)
  case None
  from assms have "\<forall>e \<in> set es. 0 \<le> sint (le_size e)"
      and "sint (sr_totalSize scan_empty) + sum_list (map (\<lambda>e. sint (le_size e)) es) < 2 ^ 63"
    by (simp_all add: sizesFit_def scan_empty_def comp_def)
  from scanLocalWalk_fits [OF _ this] None show ?thesis
    by (simp add: ScanLocal_def scan_empty_def filesOnly_def fitsTotal_nil)
next
  case (Some err)
  then show ?thesis
    by (simp add: ScanLocal_def scan_empty_def filesOnly_def fitsTotal_nil)
qed

lemma ScanRemote_fits:
  assumes "sizesFit (map re_size es)"
  shows "fitsTotal (filesOnly (sr_jobs (ScanRemote ops rp rr cb es)))
           (sr_totalSize (ScanRemote ops rp rr cb es))"
proof -
  from assms have "\<forall>e \<in> set es. 0 \<le> sint (re_size e)"
      and "sint (sr_totalSize scan_empty) + sum_list (map (\<lambda>e. sint (re_size e)) es) < 2 ^ 63"
    by (simp_all add: sizesFit_def scan_empty_def comp_def)
  from scanRemoteLoop_fits [OF _ this] show ?thesis
    by (simp add: ScanRemote_def scan_empty_def filesOnly_def fitsTotal_nil)
qed

subsection \<open>Snapshots and counters\<close>

lemma snapOk_logSnap: "snapOk (logSnap i st line)"
  by (simp add: snapOk_def logSnap_def zeroProgress_def word_sless_alt)

lemma pow2_powr: "pow2 e = 2 powr real_of_int e"
proof (cases "0 \<le> e")
  case True
  have "(2::real) ^ nat e = 2 powr real (nat e)" by (simp add: powr_realpow)
  also from True have "real (nat e) = real_of_int e" by simp
  finally show ?thesis using True by (simp add: pow2_def)
next
  case False
  have "(2::real) ^ nat (- e) = 2 powr real (nat (- e))" by (simp add: powr_realpow)
  also from False have "real (nat (- e)) = - real_of_int e" by simp
  finally show ?thesis using False by (simp add: pow2_def powr_minus field_simps)
qed

lemma pow2_pos: "0 < pow2 e"
  by (simp add: pow2_powr)

lemma pow2_add: "pow2 (a + b) = pow2 a * pow2 b"
  by (simp add: pow2_powr powr_add)

lemma pow2_mono: "a \<le> b \<Longrightarrow> pow2 a \<le> pow2 b"
  by (simp add: pow2_powr)

lemma pow2_less_cancel: "pow2 a < pow2 b \<Longrightarrow> a < b"
  by (simp add: pow2_powr)

lemma pow2_nat: "0 \<le> e \<Longrightarrow> pow2 e = 2 ^ nat e"
  by (simp add: pow2_def)

lemma expo_bounds:
  assumes "0 < x"
  shows "pow2 (expo x) \<le> x \<and> x < pow2 (expo x + 1)"
proof (cases "1 \<le> x")
  case True
  then have fp: "0 < \<lfloor>x\<rfloor>" by linarith
  from bitlen_bounds [OF fp] have lo: "2 ^ nat (bitlen \<lfloor>x\<rfloor> - 1) \<le> \<lfloor>x\<rfloor>"
    and hi: "\<lfloor>x\<rfloor> < 2 ^ nat (bitlen \<lfloor>x\<rfloor>)" by simp_all
  from fp have b1: "1 \<le> bitlen \<lfloor>x\<rfloor>" by (auto simp: bitlen_alt_def)
  from lo have "real_of_int (2 ^ nat (bitlen \<lfloor>x\<rfloor> - 1)) \<le> real_of_int \<lfloor>x\<rfloor>"
    by (simp only: of_int_le_iff)
  then have l: "2 ^ nat (bitlen \<lfloor>x\<rfloor> - 1) \<le> x" by (simp add: le_floor_iff)
  from hi have "\<lfloor>x\<rfloor> + 1 \<le> 2 ^ nat (bitlen \<lfloor>x\<rfloor>)" by simp
  then have "real_of_int (\<lfloor>x\<rfloor> + 1) \<le> real_of_int (2 ^ nat (bitlen \<lfloor>x\<rfloor>))"
    by (simp only: of_int_le_iff)
  moreover have "x < real_of_int (\<lfloor>x\<rfloor> + 1)" by linarith
  ultimately have "x < real_of_int (2 ^ nat (bitlen \<lfloor>x\<rfloor>))" by linarith
  then have h: "x < 2 ^ nat (bitlen \<lfloor>x\<rfloor>)" by simp
  from True b1 l h show ?thesis by (simp add: expo_def pow2_def)
next
  case False
  define y where "y = 1 / x"
  define n where "n = \<lceil>y\<rceil> - 1"
  from False assms have y1: "1 < y" by (simp add: y_def)
  then have np: "0 < n" unfolding n_def by linarith
  from bitlen_bounds [OF np] have lo: "2 ^ nat (bitlen n - 1) \<le> n"
    and hi: "n < 2 ^ nat (bitlen n)" by simp_all
  from np have b1: "1 \<le> bitlen n" by (auto simp: bitlen_alt_def)
  from hi have "\<lceil>y\<rceil> \<le> 2 ^ nat (bitlen n)" by (simp add: n_def)
  then have "real_of_int \<lceil>y\<rceil> \<le> real_of_int (2 ^ nat (bitlen n))" by (simp only: of_int_le_iff)
  moreover have "y \<le> real_of_int \<lceil>y\<rceil>" by linarith
  ultimately have "y \<le> real_of_int (2 ^ nat (bitlen n))" by linarith
  then have yh: "y \<le> 2 ^ nat (bitlen n)" by simp
  from lo have "real_of_int (2 ^ nat (bitlen n - 1)) \<le> real_of_int n" by (simp only: of_int_le_iff)
  moreover have "real_of_int n < y" unfolding n_def by linarith
  ultimately have "real_of_int (2 ^ nat (bitlen n - 1)) < y" by linarith
  then have yl: "2 ^ nat (bitlen n - 1) < y" by simp
  from yh assms have l: "1 / 2 ^ nat (bitlen n) \<le> x"
    by (simp add: y_def field_simps)
  have e: "expo x = - bitlen n" using False by (simp add: expo_def n_def y_def)
  from b1 have p1: "pow2 (expo x) = 1 / 2 ^ nat (bitlen n)" by (simp add: e pow2_def)
  have p2: "pow2 (expo x + 1) = 1 / 2 ^ nat (bitlen n - 1)"
  proof (cases "bitlen n = 1")
    case True
    then show ?thesis by (simp add: e pow2_def)
  next
    case False
    with b1 have "\<not> 0 \<le> - bitlen n + 1" by simp
    moreover have "- (- bitlen n + 1) = bitlen n - 1" by simp
    ultimately show ?thesis by (simp add: e pow2_def)
  qed
  from yl assms have "x < 1 / 2 ^ nat (bitlen n - 1)"
    by (simp add: y_def field_simps)
  with l p1 p2 show ?thesis by simp
qed

lemma expo_mono:
  assumes "0 < x" and "x \<le> y"
  shows "expo x \<le> expo y"
proof -
  from assms have "0 < y" by simp
  from expo_bounds [OF assms(1)] expo_bounds [OF this] assms(2)
  have "pow2 (expo x) < pow2 (expo y + 1)" by linarith
  from pow2_less_cancel [OF this] show ?thesis by simp
qed

lemma roundEven_range: "\<lfloor>x\<rfloor> \<le> roundEven x \<and> roundEven x \<le> \<lfloor>x\<rfloor> + 1"
  by (simp add: roundEven_def Let_def)

lemma roundEven_int: "roundEven (of_int n) = n"
  by (simp add: roundEven_def Let_def)

lemma roundEven_mono:
  assumes "x \<le> y"
  shows "roundEven x \<le> roundEven y"
proof (cases "\<lfloor>x\<rfloor> = \<lfloor>y\<rfloor>")
  case True
  with assms have "x - of_int \<lfloor>x\<rfloor> \<le> y - of_int \<lfloor>y\<rfloor>" by simp
  with True show ?thesis by (auto simp: roundEven_def Let_def)
next
  case False
  with assms have "\<lfloor>x\<rfloor> + 1 \<le> \<lfloor>y\<rfloor>" using floor_mono [OF assms] by linarith
  with roundEven_range [of x] roundEven_range [of y] show ?thesis by linarith
qed

lemma roundEven_ge: "of_int n \<le> x \<Longrightarrow> n \<le> roundEven x"
  using roundEven_mono [of "of_int n" x] by (simp add: roundEven_int)

lemma roundEven_le: "x \<le> of_int n \<Longrightarrow> roundEven x \<le> n"
  using roundEven_mono [of x "of_int n"] by (simp add: roundEven_int)

lemma ulp_pos: "0 < ulp a"
  by (simp add: ulp_def pow2_pos)

lemma float64_nonneg:
  assumes "0 \<le> x"
  shows "0 \<le> float64 x"
proof (cases "x = 0")
  case True
  then show ?thesis by (simp add: float64_def)
next
  case False
  with assms have x: "0 < x" by simp
  then have "real_of_int 0 \<le> x / ulp x" using ulp_pos [of x] by simp
  from roundEven_ge [OF this] have "0 \<le> real_of_int (roundEven (x / ulp x))" by simp
  with ulp_pos [of x] have "0 \<le> real_of_int (roundEven (x / ulp x)) * ulp x" by simp
  with x show ?thesis by (simp add: float64_def)
qed

lemma float64_minus: "float64 (- x) = - float64 x"
  by (simp add: float64_def sgn_real_def)

lemma float64_pos_mono:
  assumes x: "0 < x" and xy: "x \<le> y"
  shows "float64 x \<le> float64 y"
proof -
  from x xy have y: "0 < y" by simp
  define gx where "gx = max (expo x) (- 1022)"
  define gy where "gy = max (expo y) (- 1022)"
  have ux: "ulp x = pow2 (gx - 52)" and uy: "ulp y = pow2 (gy - 52)"
    by (simp_all add: ulp_def gx_def gy_def)
  have fx: "float64 x = of_int (roundEven (x / ulp x)) * ulp x"
    and fy: "float64 y = of_int (roundEven (y / ulp y)) * ulp y"
    using x y by (simp_all add: float64_def)
  from expo_mono [OF x xy] have g: "gx \<le> gy" by (simp add: gx_def gy_def)
  show ?thesis
  proof (cases "gx = gy")
    case True
    then have u: "ulp x = ulp y" by (simp add: ux uy)
    from xy ulp_pos [of y] have "x / ulp y \<le> y / ulp y" by (simp add: divide_right_mono)
    from roundEven_mono [OF this] have "roundEven (x / ulp y) \<le> roundEven (y / ulp y)" .
    then have "real_of_int (roundEven (x / ulp y)) \<le> real_of_int (roundEven (y / ulp y))"
      by simp
    with ulp_pos [of y] show ?thesis by (simp add: fx fy u)
  next
    case False
    with g have lt: "gx < gy" by simp
    then have gye: "gy = expo y" by (auto simp: gx_def gy_def max_def split: if_splits)
    have "expo x \<le> gx" by (simp add: gx_def)
    then have "pow2 (expo x + 1) \<le> pow2 (gx + 1)" by (intro pow2_mono) simp
    with expo_bounds [OF x] have xb: "x \<le> pow2 (gx + 1)" by simp
    have "gx + 1 = 53 + (gx - 52)" by simp
    then have "pow2 (gx + 1) = pow2 53 * pow2 (gx - 52)"
      by (simp only: pow2_add)
    then have s1: "pow2 (gx + 1) = 2 ^ 53 * ulp x" by (simp add: ux pow2_nat)
    with xb ulp_pos [of x] have "x / ulp x \<le> of_int (2 ^ 53)"
      by (simp add: pos_divide_le_eq)
    from roundEven_le [OF this] have "roundEven (x / ulp x) \<le> 2 ^ 53" .
    then have "real_of_int (roundEven (x / ulp x)) \<le> 2 ^ 53"
      by (metis of_int_le_iff of_int_numeral of_int_power)
    with ulp_pos [of x] have "float64 x \<le> 2 ^ 53 * ulp x" by (simp add: fx)
    with s1 have a: "float64 x \<le> pow2 (gx + 1)" by simp
    from lt have b: "pow2 (gx + 1) \<le> pow2 gy" by (intro pow2_mono) simp
    have "gy = 52 + (gy - 52)" by simp
    then have "pow2 gy = pow2 52 * pow2 (gy - 52)" by (metis pow2_add)
    then have s2: "pow2 gy = 2 ^ 52 * ulp y" by (simp add: uy pow2_nat)
    from expo_bounds [OF y] gye have "pow2 gy \<le> y" by simp
    with s2 ulp_pos [of y] have "of_int (2 ^ 52) \<le> y / ulp y"
      by (simp add: pos_le_divide_eq)
    from roundEven_ge [OF this] have "2 ^ 52 \<le> roundEven (y / ulp y)" .
    then have "2 ^ 52 \<le> real_of_int (roundEven (y / ulp y))"
      by (metis of_int_le_iff of_int_numeral of_int_power)
    with ulp_pos [of y] have "2 ^ 52 * ulp y \<le> float64 y" by (simp add: fy)
    with s2 a b show ?thesis by simp
  qed
qed

lemma float64_zero: "float64 0 = 0"
  by (simp add: float64_def)

lemma float64_mono:
  assumes "x \<le> y"
  shows "float64 x \<le> float64 y"
proof -
  consider "0 < x" | "x \<le> 0" "0 \<le> y" | "y < 0" by linarith
  then show ?thesis
  proof cases
    case 1
    from float64_pos_mono [OF 1 assms] show ?thesis .
  next
    case 2
    from 2(1) have "0 \<le> float64 (- x)" by (intro float64_nonneg) simp
    then have "float64 x \<le> 0" by (simp add: float64_minus)
    with float64_nonneg [OF 2(2)] show ?thesis by simp
  next
    case 3
    with assms have "0 < - y" and "- y \<le> - x" by simp_all
    from float64_pos_mono [OF this] show ?thesis by (simp add: float64_minus)
  qed
qed

lemma float64_one: "float64 1 = 1"
  by code_simp

lemma float64_hundred: "float64 100 = 100"
  by code_simp

lemma truncInt_le: "r \<le> 100 \<Longrightarrow> truncInt r \<le> 100"
  by (auto simp: truncInt_def floor_le_iff ceiling_le_iff)

lemma percentOf_le:
  assumes "0 < sint t" and "sint b \<le> sint t"
  shows "percentOf b t \<le> 100"
proof -
  define rb where "rb = real_of_int (sint b)"
  define rt where "rt = real_of_int (sint t)"
  from assms(1) have "1 \<le> sint t" by simp
  then have "1 \<le> rt" unfolding rt_def by (metis of_int_1_le_iff)
  from float64_mono [OF this] have t1: "1 \<le> float64 rt" by (simp add: float64_one)
  from assms(2) have "rb \<le> rt" unfolding rb_def rt_def by (simp only: of_int_le_iff)
  from float64_mono [OF this] have "float64 rb \<le> float64 rt" .
  with t1 have "float64 rb / float64 rt \<le> 1" by (simp add: divide_le_eq_1)
  from float64_mono [OF this] have q: "float64 (float64 rb / float64 rt) \<le> 1"
    by (simp add: float64_one)
  then have "float64 (float64 rb / float64 rt) * 100 \<le> 100" by simp
  from float64_mono [OF this] have "float64 (float64 (float64 rb / float64 rt) * 100) \<le> 100"
    by (simp add: float64_hundred)
  from truncInt_le [OF this] show ?thesis unfolding percentOf_def rb_def rt_def .
qed

lemma notifyTask_percentage:
  "Percentage (snd (notifyTask now t)) =
     (if 0 <s totalSize t then percentOf (BytesTransferred (Progress t)) (totalSize t) else 0)"
  by (simp add: notifyTask_def buildProgress_def Let_def split_beta split: option.splits)

lemma snapOk_notify: "taskOk t \<Longrightarrow> snapOk (snd (notifyTask now t))"
  by (auto simp: snapOk_def taskOk_def notifyTask_snap notifyTask_percentage word_sless_alt
      word_sle_eq intro: percentOf_le)

lemma taskOk_notify: "taskOk (fst (notifyTask now t)) = taskOk t"
  by (simp add: taskOk_def notifyTask_task)

lemma logOk_notify: "logOk w \<Longrightarrow> taskOk (w_task w) \<Longrightarrow> logOk (w_notify now w)"
  by (simp add: logOk_def w_notify_fields snapOk_notify)

lemma logOk_send: "logOk w \<Longrightarrow> w_send (logSnap i st line) w = Some w' \<Longrightarrow> logOk w'"
  by (auto simp: logOk_def w_send_def snapOk_logSnap split: if_splits)

lemma filesOf_le: "filesOf gs \<le> int (length gs)"
  by (simp add: filesOf_def)

lemma filesOf_lt:
  assumes "i < length gs" and "\<not> countedFile (g_phase (gs ! i))"
  shows "filesOf gs < int (length gs)"
proof -
  from assms have "gs ! i \<in> set gs" and "\<not> (\<lambda>g. countedFile (g_phase g)) (gs ! i)"
    by simp_all
  then have "length (filter (\<lambda>g. countedFile (g_phase g)) gs) < length gs"
    by (intro length_filter_less)
  then show ?thesis by (simp add: filesOf_def)
qed

lemma ibytes_update:
  "i < length gs \<Longrightarrow>
   ibytes (gs[i := g]) = ibytes gs - sint (byteCount (g_phase (gs ! i))) + sint (byteCount (g_phase g))"
  by (simp add: ibytes_def sum_list_update_group)

lemma ibytes_snoc: "ibytes (gs @ [g]) = ibytes gs + sint (byteCount (g_phase g))"
  by (simp add: ibytes_def)

lemma isum_append: "isum (xs @ ys) = isum xs + isum ys"
  by (simp add: isum_def)

lemma isum_nonneg: "\<forall>j \<in> set js. 0 \<le> sint (Size j) \<Longrightarrow> 0 \<le> isum js"
  unfolding isum_def by (rule sum_list_map_nonneg)

lemma ibytes_le:
  assumes "\<forall>g \<in> set gs. 0 \<le> sint (byteCount (g_phase g))
      \<and> sint (byteCount (g_phase g)) \<le> sint (Size (g_job g))"
  shows "0 \<le> ibytes gs \<and> ibytes gs \<le> isum (map g_job gs)"
  using assms by (induction gs) (auto simp: ibytes_def isum_def)

lemma gorOk_bytes:
  assumes "gorOk n tot g (g_phase g)" and "0 \<le> sint (Size (g_job g))"
  shows "0 \<le> sint (byteCount (g_phase g)) \<and> sint (byteCount (g_phase g)) \<le> sint (Size (g_job g))"
  using assms by (cases "g_phase g" rule: byteCount.cases) (auto simp: wOk_def)

subsection \<open>The goroutines of the file queue\<close>

lemma pjOk_init: "p_pj p = pj_init (p_fileJobs p) \<Longrightarrow> pjOk p t"
  by (simp add: pjOk_def pj_init_def filesOf_def ibytes_def)

lemma pjOk_loop:
  assumes "pjOk p t" and "pj_loop_step conc c (p_pj p) = Some s"
  shows "pjOk (p\<lparr>p_pj := s\<rparr>) t"
proof (cases "pj_loop (p_pj p)")
  case LTop
  with assms show ?thesis
    by (auto simp: pj_loop_step_def pjOk_def split: list.splits if_splits)
next
  case LAcquire
  with assms show ?thesis
    by (auto simp: pj_loop_step_def pjOk_def filesOf_snoc ibytes_snoc split: list.splits if_splits)
next
  case LWait
  with assms show ?thesis
    by (auto simp: pj_loop_step_def pjOk_def split: if_splits)
next
  case (LReturned r)
  with assms show ?thesis by (simp add: pj_loop_step_def)
qed

lemma gorOk_job: "g_job g' = g_job g \<Longrightarrow> gorOk n tot g' ph = gorOk n tot g ph"
proof (cases ph)
  case (GDone out)
  assume "g_job g' = g_job g"
  with GDone show ?thesis by (cases out) (simp_all add: wOk_def)
qed (simp_all add: wOk_def)

lemma split_sets:
  assumes "map f gs @ js = fs"
  shows "(\<forall>g \<in> set gs. f g \<in> set fs) \<and> (\<forall>j \<in> set js. j \<in> set fs)"
  using assms [symmetric] by auto

lemma pjOk_update:
  assumes ok: "pjOk p t" and i: "i < length (pj_gos (p_pj p))"
    and gos: "pj_gos s' = (pj_gos (p_pj p))[i := (pj_gos (p_pj p) ! i)\<lparr>g_phase := ph\<rparr>]"
    and jobs: "pj_jobs s' = pj_jobs (p_pj p)"
    and g: "gorOk (int (length (p_fileJobs p))) (sint (totalSize t)) (pj_gos (p_pj p) ! i) ph"
    and fd: "pj_filesDone s' = pj_filesDone (p_pj p)
        - (if countedFile (g_phase (pj_gos (p_pj p) ! i)) then 1 else 0)
        + (if countedFile ph then 1 else 0)"
    and bd: "sint (pj_bytesDone s') = sint (pj_bytesDone (p_pj p))
        - sint (byteCount (g_phase (pj_gos (p_pj p) ! i))) + sint (byteCount ph)"
  shows "pjOk (p\<lparr>p_pj := s'\<rparr>) t"
proof -
  let ?gs = "pj_gos (p_pj p)"
  let ?g = "(?gs ! i)\<lparr>g_phase := ph\<rparr>"
  have jobs': "map g_job (pj_gos s') = map g_job ?gs"
    using i by (simp add: gos map_update list_update_same_conv)
  have g': "gorOk (int (length (p_fileJobs p))) (sint (totalSize t)) ?g (g_phase ?g)"
    using g gorOk_job [of ?g "?gs ! i"] by simp
  have all: "\<forall>h \<in> set (pj_gos s').
      gorOk (int (length (p_fileJobs p))) (sint (totalSize t)) h (g_phase h)"
  proof
    fix h assume "h \<in> set (pj_gos s')"
    then have "h \<in> insert ?g (set ?gs)"
      using set_update_subset_insert [of ?gs i ?g] by (auto simp: gos)
    with g' ok show "gorOk (int (length (p_fileJobs p))) (sint (totalSize t)) h (g_phase h)"
      by (auto simp: pjOk_def)
  qed
  from ok i fd bd jobs jobs' all show ?thesis
    by (simp add: pjOk_def gos filesOf_update ibytes_update)
qed

lemma pjOk_job_size:
  assumes "pjOk p t" and "fitsTotal (p_fileJobs p) (totalSize t)" and "i < length (pj_gos (p_pj p))"
  shows "0 \<le> sint (Size (g_job (pj_gos (p_pj p) ! i)))"
proof -
  from assms(1) have "map g_job (pj_gos (p_pj p)) @ pj_jobs (p_pj p) = p_fileJobs p"
    by (simp add: pjOk_def)
  from split_sets [OF this] assms(3) have "g_job (pj_gos (p_pj p) ! i) \<in> set (p_fileJobs p)"
    by simp
  with assms(2) show ?thesis by (simp add: fitsTotal_def)
qed

lemma pjOk_bytes_bound:
  assumes ok: "pjOk p t" and fit: "fitsTotal (p_fileJobs p) (totalSize t)"
    and i: "i < length (pj_gos (p_pj p))"
    and ph: "g_phase (pj_gos (p_pj p) ! i) = GFd x fd"
  shows "0 \<le> ibytes (pj_gos (p_pj p)) + sint x
    \<and> ibytes (pj_gos (p_pj p)) + sint x \<le> sint (totalSize t)"
proof -
  let ?gs = "pj_gos (p_pj p)"
  let ?g = "(?gs ! i)\<lparr>g_phase := GDone (Succeeded x)\<rparr>"
  let ?hs = "?gs[i := ?g]"
  from ok i have gi: "gorOk (int (length (p_fileJobs p))) (sint (totalSize t)) (?gs ! i) (g_phase (?gs ! i))"
    by (simp add: pjOk_def)
  with ph have wx: "wOk x (?gs ! i)" by simp
  have sizes: "\<forall>j \<in> set (p_fileJobs p). 0 \<le> sint (Size j)"
    using fit by (simp add: fitsTotal_def)
  have split: "map g_job ?gs @ pj_jobs (p_pj p) = p_fileJobs p"
    using ok by (simp add: pjOk_def)
  have jobs_in: "\<forall>g \<in> set ?gs. g_job g \<in> set (p_fileJobs p)"
    using split_sets [OF split] by simp
  have pt: "\<forall>h \<in> set ?hs. 0 \<le> sint (byteCount (g_phase h))
      \<and> sint (byteCount (g_phase h)) \<le> sint (Size (g_job h))"
  proof
    fix h assume "h \<in> set ?hs"
    then have "h = ?g \<or> h \<in> set ?gs"
      using set_update_subset_insert [of ?gs i ?g] by auto
    then show "0 \<le> sint (byteCount (g_phase h)) \<and> sint (byteCount (g_phase h)) \<le> sint (Size (g_job h))"
    proof
      assume "h = ?g"
      with wx show ?thesis by (simp add: wOk_def)
    next
      assume h: "h \<in> set ?gs"
      with ok have "gorOk (int (length (p_fileJobs p))) (sint (totalSize t)) h (g_phase h)"
        by (simp add: pjOk_def)
      moreover from h jobs_in sizes have "0 \<le> sint (Size (g_job h))" by blast
      ultimately show ?thesis by (rule gorOk_bytes)
    qed
  qed
  from ibytes_le [OF pt] have b: "0 \<le> ibytes ?hs" and le: "ibytes ?hs \<le> isum (map g_job ?hs)"
    by simp_all
  have same: "map g_job ?hs = map g_job ?gs"
    using i by (simp add: map_update list_update_same_conv)
  have "isum (map g_job ?gs) + isum (pj_jobs (p_pj p)) = isum (p_fileJobs p)"
    using split isum_append [of "map g_job ?gs" "pj_jobs (p_pj p)"] by simp
  moreover have "0 \<le> isum (pj_jobs (p_pj p))"
  proof (rule isum_nonneg)
    show "\<forall>j \<in> set (pj_jobs (p_pj p)). 0 \<le> sint (Size j)"
      using split_sets [OF split] sizes by simp
  qed
  moreover have "isum (p_fileJobs p) = sint (totalSize t)"
    using fit by (simp add: fitsTotal_def)
  ultimately have "isum (map g_job ?gs) \<le> sint (totalSize t)" by simp
  moreover have "ibytes ?hs = ibytes ?gs + sint x"
    using i ph by (simp add: ibytes_update)
  ultimately show ?thesis using b le same by simp
qed

lemma setPhase_gos:
  "pj_gos (setPhase i ph s) = (pj_gos s)[i := (pj_gos s ! i)\<lparr>g_phase := ph\<rparr>]"
  by (simp add: setPhase_def)

lemma inv8_same_task:
  assumes "inv8 (p, w)" and "w_task w' = w_task w" and "logOk w'"
    and "p_pc p' = p_pc p" and "p_hasCb p' = p_hasCb p" and "p_fileJobs p' = p_fileJobs p"
    and "p_dirJobs p' = p_dirJobs p" and "p_jobs p' = p_jobs p" and "p_total p' = p_total p"
    and "p_scanErr p' = p_scanErr p" and "p_useRsync p' = p_useRsync p"
    and "p_hasCb p \<Longrightarrow> pjOk p' (w_task w)"
  shows "inv8 (p', w')"
  using assms by (simp add: inv8_def preOk_def totalsOk_def scanOk_def)

lemma makeExecutor_written:
  "fst (makeExecutor ty ur eng cfg os job) = 0 \<or> fst (makeExecutor ty ur eng cfg os job) = Size job"
  by (simp add: makeExecutor_def)

lemma w_exec_world:
  "w_task (snd (w_exec env p j x w)) = w_task w"
  "w_log (snd (w_exec env p j x w)) = w_log w"
  "fst (fst (w_exec env p j x w)) = 0 \<or> fst (fst (w_exec env p j x w)) = Size j"
  using makeExecutor_written [of "Type (w_task w)" "p_useRsync p" "p_engine p" "e_cfg env" "fst x" j]
  by (auto simp: w_exec_def Let_def executorResult_def split: sum.splits option.splits)

lemma go_step_nocb:
  assumes "pj_go_step c (w_exec env p) None i x (s, w) = Some (s', w')"
  shows "w_task w' = w_task w \<and> w_log w' = w_log w"
proof (rule go_step_world [OF assms, where P = "\<lambda>v. w_task v = w_task w \<and> w_log v = w_log w"])
  show "w_task w = w_task w \<and> w_log w = w_log w" by simp
qed (simp_all add: w_exec_world)

lemma pjOk_field:
  assumes "pjOk p t" and "pj_gos s' = pj_gos (p_pj p)" and "pj_jobs s' = pj_jobs (p_pj p)"
    and "pj_filesDone s' = pj_filesDone (p_pj p)" and "pj_bytesDone s' = pj_bytesDone (p_pj p)"
  shows "pjOk (p\<lparr>p_pj := s'\<rparr>) t"
  using assms by (simp add: pjOk_def)

lemma pjOk_task:
  assumes "pjOk p t" and "totalSize t' = totalSize t"
  shows "pjOk p t'"
  using assms by (simp add: pjOk_def)

lemma inv8_go_cb:
  assumes inv: "inv8 (p, w)" and cb: "p_hasCb p"
    and st: "pj_go_step (ctxCancelled (w_task w)) (w_exec env p) (w_cb p) i x (p_pj p, w) = Some (s', w')"
  shows "inv8 (p\<lparr>p_pj := s'\<rparr>, w')"
proof -
  let ?s = "p_pj p"
  let ?t = "w_task w"
  let ?g = "pj_gos ?s ! i"
  let ?n = "int (length (p_fileJobs p))"
  let ?f = "\<lambda>filesDone bytesDone.
      [storeBytes bytesDone, storeFiles (filesDone + int (length (p_dirJobs p)))]"
  from cb have wcb: "w_cb p = Some ?f" by (simp add: w_cb_def)
  from st have i: "i < length (pj_gos ?s)"
    by (auto simp: pj_go_step_def Let_def split: if_splits)
  from inv cb have ok: "pjOk p ?t" and fit: "fitsTotal (p_fileJobs p) (totalSize ?t)"
      and files: "int (length (p_dirJobs p)) + ?n \<le> totalFiles ?t"
      and tOk: "taskOk ?t" and lOk: "logOk w" and notpre: "\<not> pre (p_pc p)"
    by (auto simp: inv8_def totalsOk_def preOk_def)
  from ok i have gi: "gorOk ?n (sint (totalSize ?t)) ?g (g_phase ?g)"
    by (simp add: pjOk_def)
  from pjOk_job_size [OF ok fit i] have size0: "0 \<le> sint (Size (g_job ?g))" .
  have same: "\<And>(s1::pj_state) (w1::world).
      pjOk (p\<lparr>p_pj := s1\<rparr>) ?t \<Longrightarrow> w_task w1 = ?t \<Longrightarrow> w_log w1 = w_log w
      \<Longrightarrow> inv8 (p\<lparr>p_pj := s1\<rparr>, w1)"
  proof -
    fix s1 :: pj_state and w1 :: world
    assume a: "pjOk (p\<lparr>p_pj := s1\<rparr>) ?t" "w_task w1 = ?t" "w_log w1 = w_log w"
    from lOk a(3) have "logOk w1" by (simp add: logOk_def)
    with inv8_same_task [OF inv a(2) this, of "p\<lparr>p_pj := s1\<rparr>"] a(1)
    show "inv8 (p\<lparr>p_pj := s1\<rparr>, w1)" by simp
  qed
  show ?thesis
  proof (cases "g_phase ?g")
    case GStart
    with st i obtain ph where s': "s' = setPhase i ph ?s" and w': "w' = w"
        and ph: "ph = GDone Skipped \<or> ph = GExec"
      by (auto simp: pj_go_step_def Let_def split: if_splits)
    have "pjOk (p\<lparr>p_pj := s'\<rparr>) ?t"
      using ph GStart by (intro pjOk_update [OF ok i]) (auto simp: s' setPhase_gos setPhase_fields)
    with same w' show ?thesis by simp
  next
    case GExec
    let ?r = "w_exec env p (g_job ?g) x w"
    from w_exec_world [of env p "g_job ?g" x w] have rw: "w_task (snd ?r) = ?t"
        "w_log (snd ?r) = w_log w" and wr: "fst (fst ?r) = 0 \<or> fst (fst ?r) = Size (g_job ?g)"
      by simp_all
    from wr size0 have wok: "wOk (fst (fst ?r)) ?g" by (auto simp: wOk_def)
    from st i GExec have w': "w' = snd ?r"
      by (auto simp: pj_go_step_def Let_def split: if_splits prod.splits option.splits)
    from st i GExec have
      "(\<exists>e z. s' = setPhase i (GDone (Failed e)) (latch e (logExec i z (Some e) ?s)))
        \<or> (\<exists>z. s' = setPhase i (GSucc (fst (fst ?r))) (logExec i z None ?s))"
      by (auto simp: pj_go_step_def Let_def split: if_splits prod.splits option.splits)
    then have "pjOk (p\<lparr>p_pj := s'\<rparr>) ?t"
    proof
      assume "\<exists>e z. s' = setPhase i (GDone (Failed e)) (latch e (logExec i z (Some e) ?s))"
      then obtain e z where
        s': "s' = setPhase i (GDone (Failed e)) (latch e (logExec i z (Some e) ?s))" by blast
      show ?thesis using GExec
        by (intro pjOk_update [OF ok i])
          (auto simp: s' setPhase_gos setPhase_fields latch_def logExec_def)
    next
      assume "\<exists>z. s' = setPhase i (GSucc (fst (fst ?r))) (logExec i z None ?s)"
      then obtain z where s': "s' = setPhase i (GSucc (fst (fst ?r))) (logExec i z None ?s)" ..
      show ?thesis using GExec wok
        by (intro pjOk_update [OF ok i]) (auto simp: s' setPhase_gos setPhase_fields logExec_def)
    qed
    with same rw w' show ?thesis by simp
  next
    case (GSucc z)
    with st i have s': "s' = setPhase i (GFd z (pj_filesDone ?s + 1)) (?s\<lparr>pj_filesDone := pj_filesDone ?s + 1\<rparr>)"
        and w': "w' = w"
      by (auto simp: pj_go_step_def Let_def split: if_splits)
    from GSucc have "\<not> countedFile (g_phase ?g)" by simp
    from filesOf_lt [OF i this] ok have lt: "pj_filesDone ?s < int (length (pj_gos ?s))"
      by (simp add: pjOk_def)
    from ok have "length (map g_job (pj_gos ?s) @ pj_jobs ?s) = length (p_fileJobs p)"
      by (simp add: pjOk_def)
    then have "int (length (pj_gos ?s)) \<le> ?n" by simp
    with lt have fd: "pj_filesDone ?s + 1 \<le> ?n" by simp
    have "pjOk (p\<lparr>p_pj := s'\<rparr>) ?t"
      using GSucc gi fd by (intro pjOk_update [OF ok i]) (auto simp: s' setPhase_gos setPhase_fields)
    with same w' show ?thesis by simp
  next
    case (GFd z fd)
    let ?bd = "pj_bytesDone ?s + z"
    from st i GFd wcb have s': "s' = setPhase i (GCb z fd ?bd 0)
        (?s\<lparr>pj_bytesDone := ?bd, pj_cbLog := pj_cbLog ?s @ [(i, fd, ?bd)]\<rparr>)" and w': "w' = w"
      by (auto simp: pj_go_step_def Let_def split: if_splits)
    from pjOk_bytes_bound [OF ok fit i GFd] ok have
      b0: "0 \<le> sint (pj_bytesDone ?s) + sint z"
      and b1: "sint (pj_bytesDone ?s) + sint z \<le> sint (totalSize ?t)"
      by (simp_all add: pjOk_def)
    from b1 sint_lt_63 [of "totalSize ?t"] have "sint (pj_bytesDone ?s) + sint z < 2 ^ 63" by simp
    from sint_add_fits [OF b0 this] have sbd: "sint ?bd = sint (pj_bytesDone ?s) + sint z" .
    have "pjOk (p\<lparr>p_pj := s'\<rparr>) ?t"
      using GFd gi sbd b1
      by (intro pjOk_update [OF ok i]) (auto simp: s' setPhase_gos setPhase_fields)
    with same w' show ?thesis by simp
  next
    case (GCb z fd bd k)
    from gi GCb have fdn: "fd \<le> ?n" and bdt: "sint bd \<le> sint (totalSize ?t)" and wz: "wOk z ?g"
      by simp_all
    consider (kzero) "k = 0" | (kone) "k = 1" | (kmore) "2 \<le> k" by linarith
    then show ?thesis
    proof cases
      case kzero
      with st i GCb wcb have s': "s' = setPhase i (GCb z fd bd (Suc k)) ?s" and w': "w' = storeBytes bd w"
        by (auto simp: pj_go_step_def Let_def split: if_splits)
      have pj: "pjOk (p\<lparr>p_pj := s'\<rparr>) (w_task w')"
      proof (rule pjOk_task)
        show "pjOk (p\<lparr>p_pj := s'\<rparr>) ?t"
          using GCb gi by (intro pjOk_update [OF ok i]) (auto simp: s' setPhase_gos setPhase_fields)
        show "totalSize (w_task w') = totalSize ?t" by (simp add: w' storeBytes_def)
      qed
      have t': "taskOk (w_task w')"
        using tOk bdt by (simp add: w' storeBytes_def taskOk_def word_sle_eq)
      from inv pj t' notpre cb show ?thesis
        by (simp add: inv8_def w' storeBytes_def logOk_def preOk_def totalsOk_def scanOk_def)
    next
      case kone
      with st i GCb wcb have s': "s' = setPhase i (GCb z fd bd (Suc k)) ?s"
          and w': "w' = storeFiles (fd + int (length (p_dirJobs p))) w"
        by (auto simp: pj_go_step_def Let_def split: if_splits)
      have pj: "pjOk (p\<lparr>p_pj := s'\<rparr>) (w_task w')"
      proof (rule pjOk_task)
        show "pjOk (p\<lparr>p_pj := s'\<rparr>) ?t"
          using GCb gi by (intro pjOk_update [OF ok i]) (auto simp: s' setPhase_gos setPhase_fields)
        show "totalSize (w_task w') = totalSize ?t" by (simp add: w' storeFiles_def)
      qed
      have t': "taskOk (w_task w')"
        using tOk fdn files by (simp add: w' storeFiles_def taskOk_def)
      from inv pj t' notpre cb show ?thesis
        by (simp add: inv8_def w' storeFiles_def logOk_def preOk_def totalsOk_def scanOk_def)
    next
      case kmore
      with st i GCb wcb have s': "s' = setPhase i (GDone (Succeeded z)) ?s" and w': "w' = w"
        by (auto simp: pj_go_step_def Let_def split: if_splits)
      have "pjOk (p\<lparr>p_pj := s'\<rparr>) ?t"
        using GCb wz by (intro pjOk_update [OF ok i]) (auto simp: s' setPhase_gos setPhase_fields)
      with same w' show ?thesis by simp
    qed
  next
    case (GDone out)
    with st i show ?thesis by (simp add: pj_go_step_def Let_def)
  qed
qed

lemma inv8_go:
  assumes inv: "inv8 (p, w)"
    and st: "pj_go_step (ctxCancelled (w_task w)) (w_exec env p) (w_cb p) i x (p_pj p, w) = Some (s', w')"
  shows "inv8 (p\<lparr>p_pj := s'\<rparr>, w')"
proof (cases "p_hasCb p")
  case True
  from inv8_go_cb [OF inv True st] show ?thesis .
next
  case False
  then have "w_cb p = None" by (simp add: w_cb_def)
  with st have "pj_go_step (ctxCancelled (w_task w)) (w_exec env p) None i x (p_pj p, w) = Some (s', w')"
    by simp
  from go_step_nocb [OF this] have tw: "w_task w' = w_task w" and lw: "w_log w' = w_log w"
    by simp_all
  from inv lw have "logOk w'" by (simp add: inv8_def logOk_def)
  from inv8_same_task [OF inv tw this, of "p\<lparr>p_pj := s'\<rparr>"] False show ?thesis by simp
qed

subsection \<open>The task's own goroutine, the monitor and the reader\<close>

lemma inv8_notify:
  assumes "inv8 (p, w)" shows "inv8 (p, w_notify now w)"
proof -
  from assms have l: "logOk w" and t: "taskOk (w_task w)" by (simp_all add: inv8_def)
  from assms logOk_notify [OF l t, of now] show ?thesis
    by (simp add: inv8_def w_notify_fields taskOk_notify preOk_def totalsOk_def pjOk_def
        notifyTask_task)
qed

lemma inv8_moved:
  assumes "inv8 (p, w)" and "w_task w' = w_task w" and "logOk w'"
    and "\<not> pre (p_pc p')" and "p_hasCb p' \<longrightarrow> pjOk p' (w_task w)"
    and "p_fileJobs p' = p_fileJobs p" and "p_dirJobs p' = p_dirJobs p"
  shows "inv8 (p', w')"
  using assms by (auto simp: inv8_def preOk_def totalsOk_def scanOk_def pre_def)

lemma inv8_init: "inv8 (proc_init, world_init (newTask i ty src dst nm) ch)"
  by (simp add: inv8_def proc_init_def world_init_def newTask_def zeroProgress_def logOk_def
      taskOk_def preOk_def totalsOk_def scanOk_def pre_def fitsTotal_nil word_sless_alt)

lemma inv8_start:
  assumes inv: "inv8 pw" and pc: "p_pc (fst pw) = PStart"
  shows "inv8 (start_step env now lookErr pw)"
proof -
  obtain p w where pw: "pw = (p, w)" by (cases pw)
  let ?t = "w_task w"
  from inv pc pw have zero: "CompletedFiles (Progress ?t) = 0" "BytesTransferred (Progress ?t) = 0"
      and nocb: "\<not> p_hasCb p" and nil: "p_fileJobs p = []" "p_dirJobs p = []"
      and l: "logOk w" and tk: "taskOk ?t"
    by (simp_all add: inv8_def preOk_def pre_def)
  show ?thesis
  proof (cases "ctxCancelled ?t")
    case True
    let ?p = "p\<lparr>p_pc := PDone, p_final := Some (snd (notifyTask now (?t\<lparr>State := TaskCancelled\<rparr>)))\<rparr>"
    let ?w = "w\<lparr>w_task := ?t\<lparr>State := TaskCancelled\<rparr>\<rparr>"
    from inv pw l tk nocb nil have "inv8 (?p, ?w)"
      by (simp add: inv8_def logOk_def taskOk_def preOk_def totalsOk_def scanOk_def pre_def)
    from inv8_notify [OF this] True pw show ?thesis by (simp add: start_step_def Let_def)
  next
    case False
    note nc = False
    show ?thesis
    proof (cases "usesRsync (e_settings env) (Type ?t)")
      case True
      let ?p = "p\<lparr>p_engine := NewTransferEngine (e_settings env) lookErr, p_useRsync := True,
          p_pc := PEngine\<rparr>"
      let ?w = "w\<lparr>w_task := ?t\<lparr>totalFiles := 1, totalSize := 0, taskJobs := [wholeDirJob ?t],
          State := TaskTransferring\<rparr>\<rparr>"
      from inv pw l zero nocb nil have "inv8 (?p, ?w)"
        by (simp add: inv8_def logOk_def taskOk_def preOk_def totalsOk_def scanOk_def pre_def
            fitsTotal_nil word_sless_alt)
      from inv8_notify [OF this] True nc pw show ?thesis by (simp add: start_step_def Let_def)
    next
      case False
      let ?p = "p\<lparr>p_engine := NewTransferEngine (e_settings env) lookErr, p_useRsync := False,
          p_pc := PScan\<rparr>"
      let ?w = "w\<lparr>w_task := ?t\<lparr>State := TaskScanning\<rparr>\<rparr>"
      from inv pw l tk zero nocb nil have "inv8 (?p, ?w)"
        by (simp add: inv8_def logOk_def taskOk_def preOk_def totalsOk_def scanOk_def pre_def)
      from inv8_notify [OF this] False nc pw show ?thesis by (simp add: start_step_def Let_def)
    qed
  qed
qed

lemma inv8_engine:
  assumes inv: "inv8 pw" and pc: "p_pc (fst pw) = PEngine"
  shows "inv8 (engine_step env os pw)"
proof -
  obtain p w where pw: "pw = (p, w)" by (cases pw)
  from inv pw have l: "logOk w" by (simp add: inv8_def)
  from inv pw have cb: "p_hasCb p \<longrightarrow> pjOk p (w_task w)" by (simp add: inv8_def)
  from inv pw have i: "inv8 (p, w)" by simp
  show ?thesis
  proof (cases "engine_UploadFile (p_engine p) (e_cfg env) os (Source (w_task w)) (Dest (w_task w))")
    case (Inl e)
    have "inv8 (p\<lparr>p_result := Some e, p_pc := PFinish\<rparr>, w)"
      using l cb by (intro inv8_moved [OF i]) (simp_all add: pre_def pjOk_def)
    with Inl pw show ?thesis by (simp add: engine_step_def Let_def)
  next
    case (Inr c)
    have "inv8 (p\<lparr>p_pc := PRsyncRun, p_reader := (p_engine p = RsyncEngine)\<rparr>,
        w\<lparr>w_calls := w_calls w @ [c]\<rparr>)"
      using l cb by (intro inv8_moved [OF i]) (simp_all add: pre_def pjOk_def logOk_def)
    with Inr pw show ?thesis by (simp add: engine_step_def Let_def)
  qed
qed

lemma fitsTotal_single: "0 \<le> sint (Size j) \<Longrightarrow> fitsTotal [j] (Size j)"
  by (simp add: fitsTotal_def isum_def)

lemma singleFile_fits:
  assumes "case st of Some z \<Rightarrow> 0 \<le> sint z | None \<Rightarrow> True"
  shows "fitsTotal (filesOnly (sr_jobs (singleFile task st))) (sr_totalSize (singleFile task st))"
proof (cases st)
  case None
  then show ?thesis
    using fitsTotal_single [of "\<lparr>Path = Name task, AbsPath = Source task, DestPath = Dest task,
        Size = 0, IsDir = False, IsRecursive = False\<rparr>"]
    by (simp add: singleFile_def filesOnly_def)
next
  case (Some z)
  with assms show ?thesis
    using fitsTotal_single [of "\<lparr>Path = Name task, AbsPath = Source task, DestPath = Dest task,
        Size = z, IsDir = False, IsRecursive = False\<rparr>"]
    by (simp add: singleFile_def filesOnly_def)
qed

lemma inv8_scanned:
  assumes inv: "inv8 (p, w)" and pc: "p_pc p = PScan"
    and fit: "sr_err r = None \<longrightarrow> fitsTotal (filesOnly (sr_jobs r)) (sr_totalSize r)"
  shows "inv8 (scanned r p, w)"
  using assms
  by (auto simp: inv8_def scanned_def preOk_def totalsOk_def scanOk_def pre_def pjOk_def)

lemma inv8_scan:
  assumes inv: "inv8 pw" and pc: "p_pc (fst pw) = PScan"
    and st: "scan_step env inp pw = Some pw'" and sz: "sizesOk (AMain inp)"
  shows "inv8 pw'"
proof -
  obtain p w where pw: "pw = (p, w)" by (cases pw)
  from st pw obtain r where pw': "pw' = (scanned r p, w)"
      and r: "(\<exists>rs es. inp = MScanLocal rs es \<and> r = ScanLocal (e_ops env) rs (Source (w_task w))
                (fp_Dir (e_ops env) (Dest (w_task w))) True es)
        \<or> (\<exists>es. inp = MScanRemote es \<and> r = ScanRemote (e_ops env) (Source (w_task w))
                (fp_Dir (e_ops env) (Dest (w_task w))) True es)
        \<or> (\<exists>z. inp = MStat z \<and> r = singleFile (w_task w) z)
        \<or> r = scan_empty\<lparr>sr_err := Some ''unknown task type''\<rparr>"
    by (auto simp: scan_step_def Let_def split: TaskType.splits minput.splits)
  from r have "sr_err r = None \<longrightarrow> fitsTotal (filesOnly (sr_jobs r)) (sr_totalSize r)"
  proof (elim disjE exE conjE)
    fix rs es assume "inp = MScanLocal rs es" and rr: "r = ScanLocal (e_ops env) rs (Source (w_task w))
        (fp_Dir (e_ops env) (Dest (w_task w))) True es"
    with sz have "sizesFit (map le_size es)" by simp
    from ScanLocal_fits [OF this] rr show ?thesis by simp
  next
    fix es assume "inp = MScanRemote es" and rr: "r = ScanRemote (e_ops env) (Source (w_task w))
        (fp_Dir (e_ops env) (Dest (w_task w))) True es"
    with sz have "sizesFit (map re_size es)" by simp
    from ScanRemote_fits [OF this] rr show ?thesis by simp
  next
    fix z assume "inp = MStat z" and rr: "r = singleFile (w_task w) z"
    with sz have "case z of Some x \<Rightarrow> 0 \<le> sint x | None \<Rightarrow> True"
      by (cases z) simp_all
    from singleFile_fits [OF this] rr show ?thesis by simp
  next
    assume "r = scan_empty\<lparr>sr_err := Some ''unknown task type''\<rparr>"
    then show ?thesis by simp
  qed
  from inv8_scanned [OF _ _ this, of p w] inv pc pw pw' show ?thesis by simp
qed

lemma split_lengths:
  "int (length (filter IsDir js)) + int (length (filter (\<lambda>j. \<not> IsDir j) js)) = int (length js)"
  using sum_length_filter_compl [of IsDir js] by simp

lemma inv8_after_scan:
  assumes inv: "inv8 pw" and pc: "p_pc (fst pw) = PScanSend"
  shows "inv8 (after_scan now pw)"
proof -
  obtain p w where pw: "pw = (p, w)" by (cases pw)
  let ?t = "w_task w"
  from inv pc pw have zero: "CompletedFiles (Progress ?t) = 0" "BytesTransferred (Progress ?t) = 0"
      and nocb: "\<not> p_hasCb p" and nil: "p_fileJobs p = []" "p_dirJobs p = []"
      and l: "logOk w" and tk: "taskOk ?t" and nr: "\<not> p_useRsync p"
      and tot: "totalsOk p ?t"
    by (simp_all add: inv8_def preOk_def pre_def)
  show ?thesis
  proof (cases "p_scanErr p")
    case (Some e)
    let ?w = "w\<lparr>w_task := ?t\<lparr>State := TaskFailed, taskErr := Some e\<rparr>\<rparr>"
    from inv pw l tk nocb nil tot pc have "inv8 (p\<lparr>p_pc := PFinish\<rparr>, ?w)"
      by (auto simp: inv8_def logOk_def taskOk_def preOk_def totalsOk_def scanOk_def pre_def)
    from inv8_notify [OF this] Some pw show ?thesis by (simp add: after_scan_def Let_def)
  next
    case None
    with inv pc pw have fit: "fitsTotal (filesOnly (p_jobs p)) (p_total p)"
      by (simp add: inv8_def scanOk_def)
    let ?task = "?t\<lparr>totalFiles := int (length (p_jobs p)), totalSize := p_total p,
        taskJobs := p_jobs p, State := TaskTransferring\<rparr>"
    let ?p = "p\<lparr>p_monitor := True, p_dirJobs := filter IsDir (p_jobs p),
        p_fileJobs := filter (\<lambda>j. \<not> IsDir j) (p_jobs p)\<rparr>"
    have tk': "taskOk ?task"
      using zero by (simp add: taskOk_def word_sless_alt word_sle_eq)
    have tot': "totalsOk ?p ?task"
      using fit split_lengths [of "p_jobs p"] by (simp add: totalsOk_def filesOnly_def)
    show ?thesis
    proof (cases "0 < length (filter IsDir (p_jobs p))")
      case True
      have "inv8 (?p\<lparr>p_pc := PDirSend\<rparr>, w\<lparr>w_task := ?task\<rparr>)"
        using l tk' tot' nocb
        by (simp add: inv8_def logOk_def preOk_def totalsOk_def scanOk_def pre_def)
      from inv8_notify [OF this] None True nr pw show ?thesis
        by (simp add: after_scan_def Let_def)
    next
      case False
      let ?q = "?p\<lparr>p_pj := pj_init (p_fileJobs ?p), p_hasCb := True, p_pc := PFiles\<rparr>"
      have "pjOk ?q ?task" by (rule pjOk_init) simp
      then have "inv8 (?q, w\<lparr>w_task := ?task\<rparr>)"
        using l tk' tot'
        by (simp add: inv8_def logOk_def preOk_def totalsOk_def scanOk_def pre_def)
      from inv8_notify [OF this] None False nr pw show ?thesis
        by (simp add: after_scan_def Let_def)
    qed
  qed
qed

lemma inv8_send:
  assumes inv: "inv8 (p, w)" and s: "w_send (logSnap i st line) w = Some w'"
    and np: "\<not> pre (p_pc p')" and cb: "p_hasCb p' \<longrightarrow> pjOk p' (w_task w)"
    and fj: "p_fileJobs p' = p_fileJobs p" and dj: "p_dirJobs p' = p_dirJobs p"
  shows "inv8 (p', w')"
proof -
  from inv have l: "logOk w" by (simp add: inv8_def)
  from s have t: "w_task w' = w_task w" by (auto simp: w_send_def split: if_splits)
  from inv8_moved [OF inv t logOk_send [OF l s] np cb fj dj] show ?thesis .
qed

lemma inv8_scan_send:
  assumes inv: "inv8 (p, w)" and s: "w_send (logSnap i st line) w = Some w'"
  shows "inv8 (p\<lparr>p_sends := cs\<rparr>, w')"
proof -
  from inv have l: "logOk w" by (simp add: inv8_def)
  from s have t: "w_task w' = w_task w" by (auto simp: w_send_def split: if_splits)
  from inv t logOk_send [OF l s] show ?thesis
    by (auto simp: inv8_def preOk_def totalsOk_def scanOk_def pjOk_def)
qed

lemma inv8_dirs:
  assumes inv: "inv8 pw" and st: "dirs_step pw = Some pw'"
    and pc: "p_pc (fst pw) = PDirs"
  shows "inv8 pw'"
proof -
  obtain p w where pw: "pw = (p, w)" by (cases pw)
  from inv pw have i: "inv8 (p, w)" by simp
  then have l: "logOk w" and cb: "p_hasCb p \<longrightarrow> pjOk p (w_task w)" by (simp_all add: inv8_def)
  show ?thesis
  proof (cases "pj_loop (p_pj p)")
    case (LReturned r)
    show ?thesis
    proof (cases r)
      case None
      let ?q = "p\<lparr>p_pj := pj_init (p_fileJobs p), p_hasCb := True, p_pc := PFiles\<rparr>"
      have "pjOk ?q (w_task w)" by (rule pjOk_init) simp
      with l have "inv8 (?q, w)" by (intro inv8_moved [OF i]) (simp_all add: pre_def)
      with st pw LReturned None show ?thesis by (simp add: dirs_step_def)
    next
      case (Some e)
      from l cb have "inv8 (p\<lparr>p_result := r, p_pc := PFinish\<rparr>, w)"
        by (intro inv8_moved [OF i]) (simp_all add: pre_def pjOk_def)
      with st pw LReturned Some show ?thesis by (simp add: dirs_step_def)
    qed
  next
    case LTop
    with st pw obtain s where s: "pj_loop_step fileQueueConcurrency (ctxCancelled (w_task w)) (p_pj p) = Some s"
        and pw': "pw' = (p\<lparr>p_pj := s\<rparr>, w)"
      by (auto simp: dirs_step_def)
    from l pc pw pjOk_loop [OF _ s] cb have "inv8 (p\<lparr>p_pj := s\<rparr>, w)"
      by (intro inv8_moved [OF i]) (simp_all add: pre_def)
    with pw' show ?thesis by simp
  next
    case LAcquire
    with st pw obtain s where s: "pj_loop_step fileQueueConcurrency (ctxCancelled (w_task w)) (p_pj p) = Some s"
        and pw': "pw' = (p\<lparr>p_pj := s\<rparr>, w)"
      by (auto simp: dirs_step_def)
    from l pc pw pjOk_loop [OF _ s] cb have "inv8 (p\<lparr>p_pj := s\<rparr>, w)"
      by (intro inv8_moved [OF i]) (simp_all add: pre_def)
    with pw' show ?thesis by simp
  next
    case LWait
    with st pw obtain s where s: "pj_loop_step fileQueueConcurrency (ctxCancelled (w_task w)) (p_pj p) = Some s"
        and pw': "pw' = (p\<lparr>p_pj := s\<rparr>, w)"
      by (auto simp: dirs_step_def)
    from l pc pw pjOk_loop [OF _ s] cb have "inv8 (p\<lparr>p_pj := s\<rparr>, w)"
      by (intro inv8_moved [OF i]) (simp_all add: pre_def)
    with pw' show ?thesis by simp
  qed
qed

lemma inv8_files:
  assumes inv: "inv8 pw" and st: "files_step pw = Some pw'"
    and pc: "p_pc (fst pw) = PFiles"
  shows "inv8 pw'"
proof -
  obtain p w where pw: "pw = (p, w)" by (cases pw)
  from inv pw have i: "inv8 (p, w)" by simp
  then have l: "logOk w" and cb: "p_hasCb p \<longrightarrow> pjOk p (w_task w)" by (simp_all add: inv8_def)
  show ?thesis
  proof (cases "\<exists>r. pj_loop (p_pj p) = LReturned r")
    case True
    then obtain r where r: "pj_loop (p_pj p) = LReturned r" ..
    from l cb have "inv8 (p\<lparr>p_result := r, p_stopClosed := True, p_pc := PFinish\<rparr>, w)"
      by (intro inv8_moved [OF i]) (simp_all add: pre_def pjOk_def)
    with st pw r show ?thesis by (simp add: files_step_def)
  next
    case False
    with st pw obtain s where s: "pj_loop_step fileQueueConcurrency (ctxCancelled (w_task w)) (p_pj p) = Some s"
        and pw': "pw' = (p\<lparr>p_pj := s\<rparr>, w)"
      by (cases "pj_loop (p_pj p)") (auto simp: files_step_def)
    from l pc pw pjOk_loop [OF _ s] cb have "inv8 (p\<lparr>p_pj := s\<rparr>, w)"
      by (intro inv8_moved [OF i]) (simp_all add: pre_def)
    with pw' show ?thesis by simp
  qed
qed

lemma taskOk_finish: "taskOk t \<Longrightarrow> taskOk (finishTask r t)"
  by (cases r) (simp_all add: taskOk_def finishTask_def word_sle_eq)

lemma finishTask_totals:
  "totalSize (finishTask r t) = totalSize t" "totalFiles (finishTask r t) = totalFiles t"
  by (cases r; simp add: finishTask_def)+

lemma inv8_finish:
  assumes inv: "inv8 pw" and pc: "p_pc (fst pw) = PFinish"
  shows "inv8 (fst pw\<lparr>p_pc := PDone, p_final := x\<rparr>,
           w_notify now (snd pw\<lparr>w_task := finishTask (p_result (fst pw)) (w_task (snd pw))\<rparr>))"
proof -
  from inv have "inv8 (fst pw\<lparr>p_pc := PDone, p_final := x\<rparr>,
      snd pw\<lparr>w_task := finishTask (p_result (fst pw)) (w_task (snd pw))\<rparr>)"
    by (auto simp: inv8_def logOk_def taskOk_finish preOk_def totalsOk_def scanOk_def pre_def
        pjOk_def finishTask_totals)
  from inv8_notify [OF this] show ?thesis .
qed

lemma inv8_main:
  assumes inv: "inv8 pw" and st: "main_step env inp pw = Some pw'" and sz: "sizesOk (AMain inp)"
  shows "inv8 pw'"
proof (cases "p_pc (fst pw)")
  case PStart
  with st obtain now lookErr where "pw' = start_step env now lookErr pw"
    by (auto simp: main_step_def Let_def split: minput.splits)
  with inv8_start [OF inv PStart] show ?thesis by simp
next
  case PEngine
  with st obtain os where "pw' = engine_step env os pw"
    by (auto simp: main_step_def Let_def split: minput.splits)
  with inv8_engine [OF inv PEngine] show ?thesis by simp
next
  case PRsyncRun
  with st obtain r where pw': "pw' = (fst pw\<lparr>p_result := r, p_pc := PFinish\<rparr>, snd pw)"
    by (auto simp: main_step_def Let_def split: minput.splits)
  from inv have i: "inv8 (fst pw, snd pw)" by simp
  from inv have "inv8 (fst pw\<lparr>p_result := r, p_pc := PFinish\<rparr>, snd pw)"
    by (intro inv8_moved [OF i]) (simp_all add: inv8_def pre_def pjOk_def)
  with pw' show ?thesis by simp
next
  case PScan
  with st have "scan_step env inp pw = Some pw'" by (simp add: main_step_def Let_def)
  from inv8_scan [OF inv PScan this sz] show ?thesis .
next
  case PScanSend
  from inv have i: "inv8 (fst pw, snd pw)" by simp
  from st PScanSend consider
      (send) c cs w' where "p_sends (fst pw) = c # cs"
        "w_send (logSnap (ID (w_task (snd pw))) TaskScanning (scanLine c)) (snd pw) = Some w'"
        "pw' = (fst pw\<lparr>p_sends := cs\<rparr>, w')"
    | (go) now where "pw' = after_scan now pw"
    by (auto simp: main_step_def Let_def split: minput.splits list.splits if_splits)
  then show ?thesis
  proof cases
    case send
    from inv8_scan_send [OF i send(2)] send(3) show ?thesis by simp
  next
    case go
    with inv8_after_scan [OF inv PScanSend] show ?thesis by simp
  qed
next
  case PDirSend
  from inv have i: "inv8 (fst pw, snd pw)" by simp
  from st PDirSend obtain w' where
      s: "w_send (logSnap (ID (w_task (snd pw))) TaskTransferring
            (dirsLine (length (p_dirJobs (fst pw))))) (snd pw) = Some w'"
      and pw': "pw' = (fst pw\<lparr>p_pj := pj_init (p_dirJobs (fst pw)), p_hasCb := False,
                         p_pc := PDirs\<rparr>, w')"
    by (auto simp: main_step_def Let_def split: minput.splits)
  have "inv8 (fst pw\<lparr>p_pj := pj_init (p_dirJobs (fst pw)), p_hasCb := False, p_pc := PDirs\<rparr>, w')"
    by (rule inv8_send [OF i s]) (simp_all add: pre_def)
  with pw' show ?thesis by simp
next
  case PDirs
  with st have "dirs_step pw = Some pw'" by (simp add: main_step_def Let_def split: minput.splits)
  from inv8_dirs [OF inv this PDirs] show ?thesis .
next
  case PFiles
  with st have "files_step pw = Some pw'" by (simp add: main_step_def Let_def split: minput.splits)
  from inv8_files [OF inv this PFiles] show ?thesis .
next
  case PFinish
  with st obtain now where "pw' = (fst pw\<lparr>p_pc := PDone,
      p_final := Some (snd (notifyTask now (finishTask (p_result (fst pw)) (w_task (snd pw)))))\<rparr>,
      w_notify now (snd pw\<lparr>w_task := finishTask (p_result (fst pw)) (w_task (snd pw))\<rparr>))"
    by (auto simp: main_step_def Let_def split: minput.splits)
  with inv8_finish [OF inv PFinish] show ?thesis by simp
next
  case PDone
  with st show ?thesis by (simp add: main_step_def Let_def)
qed

lemma inv8_step:
  assumes inv: "inv8 pw" and st: "step env a pw = Some pw'" and sz: "sizesOk a"
  shows "inv8 pw'"
proof (cases a)
  case ACancel
  with st have pw': "pw' = (fst pw, snd pw\<lparr>w_task := cancelIfLive (w_task (snd pw))\<rparr>)"
    by (simp add: step_def Let_def)
  from inv have "inv8 (fst pw, snd pw\<lparr>w_task := cancelIfLive (w_task (snd pw))\<rparr>)"
    by (auto simp: inv8_def cancelIfLive_def logOk_def taskOk_def preOk_def totalsOk_def pjOk_def)
  with pw' show ?thesis by simp
next
  case ARecv
  with st obtain xs where pw': "pw' = (fst pw, snd pw\<lparr>w_chan := (w_chan (snd pw))\<lparr>buf := xs\<rparr>\<rparr>)"
    by (auto simp: step_def Let_def split: list.splits)
  from inv have "inv8 (fst pw, snd pw\<lparr>w_chan := (w_chan (snd pw))\<lparr>buf := xs\<rparr>\<rparr>)"
    by (simp add: inv8_def logOk_def)
  with pw' show ?thesis by simp
next
  case (AEnvSend x)
  with st have pw': "pw' = (fst pw, snd pw\<lparr>w_chan := push x (w_chan (snd pw))\<rparr>)"
    by (auto simp: step_def Let_def split: if_splits)
  from inv have "inv8 (fst pw, snd pw\<lparr>w_chan := push x (w_chan (snd pw))\<rparr>)"
    by (simp add: inv8_def logOk_def)
  with pw' show ?thesis by simp
next
  case (AMain inp)
  with st have "main_step env inp pw = Some pw'" by (simp add: step_def Let_def)
  from inv8_main [OF inv this] sz AMain show ?thesis by simp
next
  case (ATick now)
  with st have pw': "pw' = (fst pw, w_notify now (snd pw))"
    by (auto simp: step_def Let_def split: if_splits)
  from inv have "inv8 (fst pw, snd pw)" by simp
  from inv8_notify [OF this] pw' show ?thesis by simp
next
  case AMonExit
  with st have pw': "pw' = (fst pw\<lparr>p_monitor := False\<rparr>, snd pw)"
    by (auto simp: step_def Let_def split: if_splits)
  from inv have "inv8 (fst pw\<lparr>p_monitor := False\<rparr>, snd pw)"
    by (auto simp: inv8_def preOk_def totalsOk_def scanOk_def pjOk_def)
  with pw' show ?thesis by simp
next
  case (AReader line)
  from inv have i: "inv8 (fst pw, snd pw)" by simp
  show ?thesis
  proof (cases "line = []")
    case True
    with st AReader have "pw' = pw" by (auto simp: step_def Let_def split: if_splits)
    with inv show ?thesis by simp
  next
    case False
    with st AReader obtain w' where
        s: "w_send (logSnap (ID (w_task (snd pw))) (State (w_task (snd pw))) line) (snd pw) = Some w'"
        and pw': "pw' = (fst pw, w')"
      by (auto simp: step_def Let_def split: if_splits)
    from inv8_scan_send [OF i s, of "p_sends (fst pw)"] pw' show ?thesis by simp
  qed
next
  case AReaderExit
  with st have pw': "pw' = (fst pw\<lparr>p_reader := False\<rparr>, snd pw)"
    by (auto simp: step_def Let_def split: if_splits)
  from inv have "inv8 (fst pw\<lparr>p_reader := False\<rparr>, snd pw)"
    by (auto simp: inv8_def preOk_def totalsOk_def scanOk_def pjOk_def)
  with pw' show ?thesis by simp
next
  case (AGo i os r)
  from inv have iv: "inv8 (fst pw, snd pw)" by simp
  from st AGo obtain s' w' where
      g: "pj_go_step (ctxCancelled (w_task (snd pw))) (w_exec env (fst pw)) (w_cb (fst pw)) i (os, r)
            (p_pj (fst pw), snd pw) = Some (s', w')"
      and pw': "pw' = (fst pw\<lparr>p_pj := s'\<rparr>, w')"
    by (auto simp: step_def Let_def)
  from inv8_go [OF iv g] pw' show ?thesis by simp
qed

lemma inv8_run:
  "inv8 pw \<Longrightarrow> run env sched pw = Some pw' \<Longrightarrow> \<forall>a \<in> set sched. sizesOk a \<Longrightarrow> inv8 pw'"
proof (induction sched arbitrary: pw)
  case Nil
  then show ?case by simp
next
  case (Cons a sched)
  from Cons.prems(2) obtain pw1 where s: "step env a pw = Some pw1"
      and r: "run env sched pw1 = Some pw'"
    by (auto split: option.splits)
  from Cons.prems(3) have "sizesOk a" and rest: "\<forall>a \<in> set sched. sizesOk a" by simp_all
  from inv8_step [OF Cons.prems(1) s this(1)] have "inv8 pw1" .
  from Cons.IH [OF this r rest] show ?case .
qed

subsection \<open>The file counts, whatever the sizes\<close>

lemma snapF_logSnap: "snapF (logSnap i st line)"
  by (simp add: snapF_def logSnap_def zeroProgress_def)

lemma snapF_notify: "taskF t \<Longrightarrow> snapF (snd (notifyTask now t))"
  by (simp add: snapF_def taskF_def notifyTask_snap)

lemma taskF_notify: "taskF (fst (notifyTask now t)) = taskF t"
  by (simp add: taskF_def notifyTask_task)

lemma logF_notify: "logF w \<Longrightarrow> taskF (w_task w) \<Longrightarrow> logF (w_notify now w)"
  by (simp add: logF_def w_notify_fields snapF_notify)

lemma logF_send: "logF w \<Longrightarrow> w_send (logSnap i st line) w = Some w' \<Longrightarrow> logF w'"
  by (auto simp: logF_def w_send_def snapF_logSnap split: if_splits)

lemma pjF_init: "p_pj p = pj_init (p_fileJobs p) \<Longrightarrow> pjF p"
  by (simp add: pjF_def pj_init_def filesOf_def)

lemma pjF_loop:
  assumes "pjF p" and "pj_loop_step conc c (p_pj p) = Some s"
  shows "pjF (p\<lparr>p_pj := s\<rparr>)"
proof (cases "pj_loop (p_pj p)")
  case LTop
  with assms show ?thesis
    by (auto simp: pj_loop_step_def pjF_def split: list.splits if_splits)
next
  case LAcquire
  with assms show ?thesis
    by (auto simp: pj_loop_step_def pjF_def filesOf_snoc split: list.splits if_splits)
next
  case LWait
  with assms show ?thesis
    by (auto simp: pj_loop_step_def pjF_def split: if_splits)
next
  case (LReturned r)
  with assms show ?thesis by (simp add: pj_loop_step_def)
qed

lemma pjF_update:
  assumes ok: "pjF p" and i: "i < length (pj_gos (p_pj p))"
    and gos: "pj_gos s' = (pj_gos (p_pj p))[i := (pj_gos (p_pj p) ! i)\<lparr>g_phase := ph\<rparr>]"
    and jobs: "pj_jobs s' = pj_jobs (p_pj p)"
    and g: "gorF (int (length (p_fileJobs p))) ph"
    and fd: "pj_filesDone s' = pj_filesDone (p_pj p)
        - (if countedFile (g_phase (pj_gos (p_pj p) ! i)) then 1 else 0)
        + (if countedFile ph then 1 else 0)"
  shows "pjF (p\<lparr>p_pj := s'\<rparr>)"
proof -
  let ?gs = "pj_gos (p_pj p)"
  let ?g = "(?gs ! i)\<lparr>g_phase := ph\<rparr>"
  have jobs': "map g_job (pj_gos s') = map g_job ?gs"
    using i by (simp add: gos map_update list_update_same_conv)
  have all: "\<forall>h \<in> set (pj_gos s'). gorF (int (length (p_fileJobs p))) (g_phase h)"
  proof
    fix h assume "h \<in> set (pj_gos s')"
    then have "h \<in> insert ?g (set ?gs)"
      using set_update_subset_insert [of ?gs i ?g] by (auto simp: gos)
    with g ok show "gorF (int (length (p_fileJobs p))) (g_phase h)"
      by (auto simp: pjF_def)
  qed
  from ok i fd jobs jobs' all show ?thesis
    by (simp add: pjF_def gos filesOf_update)
qed

lemma invF_same_task:
  assumes "invF (p, w)" and "w_task w' = w_task w" and "logF w'"
    and "p_pc p' = p_pc p" and "p_hasCb p' = p_hasCb p" and "p_fileJobs p' = p_fileJobs p"
    and "p_dirJobs p' = p_dirJobs p" and "p_useRsync p' = p_useRsync p"
    and "p_hasCb p \<Longrightarrow> pjF p'"
  shows "invF (p', w')"
  using assms by (simp add: invF_def preF_def totalsF_def)

lemma invF_go_cb:
  assumes inv: "invF (p, w)" and cb: "p_hasCb p"
    and st: "pj_go_step (ctxCancelled (w_task w)) (w_exec env p) (w_cb p) i x (p_pj p, w) = Some (s', w')"
  shows "invF (p\<lparr>p_pj := s'\<rparr>, w')"
proof -
  let ?s = "p_pj p"
  let ?t = "w_task w"
  let ?g = "pj_gos ?s ! i"
  let ?n = "int (length (p_fileJobs p))"
  let ?f = "\<lambda>filesDone bytesDone.
      [storeBytes bytesDone, storeFiles (filesDone + int (length (p_dirJobs p)))]"
  from cb have wcb: "w_cb p = Some ?f" by (simp add: w_cb_def)
  from st have i: "i < length (pj_gos ?s)"
    by (auto simp: pj_go_step_def Let_def split: if_splits)
  from inv cb have ok: "pjF p"
      and files: "int (length (p_dirJobs p)) + ?n \<le> totalFiles ?t"
      and tOk: "taskF ?t" and lOk: "logF w" and notpre: "\<not> pre (p_pc p)"
    by (auto simp: invF_def totalsF_def preF_def)
  from ok i have gi: "gorF ?n (g_phase ?g)" by (simp add: pjF_def)
  have same: "\<And>(sa::pj_state) (wa::world).
      pjF (p\<lparr>p_pj := sa\<rparr>) \<Longrightarrow> w_task wa = ?t \<Longrightarrow> w_log wa = w_log w
      \<Longrightarrow> invF (p\<lparr>p_pj := sa\<rparr>, wa)"
  proof -
    fix sa :: pj_state and wa :: world
    assume a: "pjF (p\<lparr>p_pj := sa\<rparr>)" "w_task wa = ?t" "w_log wa = w_log w"
    from lOk a(3) have "logF wa" by (simp add: logF_def)
    with invF_same_task [OF inv a(2) this, of "p\<lparr>p_pj := sa\<rparr>"] a(1)
    show "invF (p\<lparr>p_pj := sa\<rparr>, wa)" by simp
  qed
  show ?thesis
  proof (cases "g_phase ?g")
    case GStart
    with st i obtain ph where s': "s' = setPhase i ph ?s" and w': "w' = w"
        and ph: "ph = GDone Skipped \<or> ph = GExec"
      by (auto simp: pj_go_step_def Let_def split: if_splits)
    have "pjF (p\<lparr>p_pj := s'\<rparr>)"
      using ph GStart by (intro pjF_update [OF ok i]) (auto simp: s' setPhase_gos setPhase_fields)
    with same w' show ?thesis by simp
  next
    case GExec
    let ?r = "w_exec env p (g_job ?g) x w"
    from w_exec_world [of env p "g_job ?g" x w] have rw: "w_task (snd ?r) = ?t"
        "w_log (snd ?r) = w_log w"
      by simp_all
    from st i GExec have w': "w' = snd ?r"
      by (auto simp: pj_go_step_def Let_def split: if_splits prod.splits option.splits)
    from st i GExec have
      "(\<exists>e z. s' = setPhase i (GDone (Failed e)) (latch e (logExec i z (Some e) ?s)))
        \<or> (\<exists>z. s' = setPhase i (GSucc (fst (fst ?r))) (logExec i z None ?s))"
      by (auto simp: pj_go_step_def Let_def split: if_splits prod.splits option.splits)
    then have "pjF (p\<lparr>p_pj := s'\<rparr>)"
    proof
      assume "\<exists>e z. s' = setPhase i (GDone (Failed e)) (latch e (logExec i z (Some e) ?s))"
      then obtain e z where
        s': "s' = setPhase i (GDone (Failed e)) (latch e (logExec i z (Some e) ?s))" by blast
      show ?thesis using GExec
        by (intro pjF_update [OF ok i])
          (auto simp: s' setPhase_gos setPhase_fields latch_def logExec_def)
    next
      assume "\<exists>z. s' = setPhase i (GSucc (fst (fst ?r))) (logExec i z None ?s)"
      then obtain z where s': "s' = setPhase i (GSucc (fst (fst ?r))) (logExec i z None ?s)" ..
      show ?thesis using GExec
        by (intro pjF_update [OF ok i]) (auto simp: s' setPhase_gos setPhase_fields logExec_def)
    qed
    with same rw w' show ?thesis by simp
  next
    case (GSucc z)
    with st i have s': "s' = setPhase i (GFd z (pj_filesDone ?s + 1)) (?s\<lparr>pj_filesDone := pj_filesDone ?s + 1\<rparr>)"
        and w': "w' = w"
      by (auto simp: pj_go_step_def Let_def split: if_splits)
    from GSucc have "\<not> countedFile (g_phase ?g)" by simp
    from filesOf_lt [OF i this] ok have lt: "pj_filesDone ?s < int (length (pj_gos ?s))"
      by (simp add: pjF_def)
    from ok have "length (map g_job (pj_gos ?s) @ pj_jobs ?s) = length (p_fileJobs p)"
      by (simp add: pjF_def)
    then have "int (length (pj_gos ?s)) \<le> ?n" by simp
    with lt have fd: "pj_filesDone ?s + 1 \<le> ?n" by simp
    have "pjF (p\<lparr>p_pj := s'\<rparr>)"
      using GSucc fd by (intro pjF_update [OF ok i]) (auto simp: s' setPhase_gos setPhase_fields)
    with same w' show ?thesis by simp
  next
    case (GFd z fd)
    let ?bd = "pj_bytesDone ?s + z"
    from st i GFd wcb have s': "s' = setPhase i (GCb z fd ?bd 0)
        (?s\<lparr>pj_bytesDone := ?bd, pj_cbLog := pj_cbLog ?s @ [(i, fd, ?bd)]\<rparr>)" and w': "w' = w"
      by (auto simp: pj_go_step_def Let_def split: if_splits)
    have "pjF (p\<lparr>p_pj := s'\<rparr>)"
      using GFd gi by (intro pjF_update [OF ok i]) (auto simp: s' setPhase_gos setPhase_fields)
    with same w' show ?thesis by simp
  next
    case (GCb z fd bd k)
    from gi GCb have fdn: "fd \<le> ?n" by simp
    consider (kzero) "k = 0" | (kone) "k = 1" | (kmore) "2 \<le> k" by linarith
    then show ?thesis
    proof cases
      case kzero
      with st i GCb wcb have s': "s' = setPhase i (GCb z fd bd (Suc k)) ?s" and w': "w' = storeBytes bd w"
        by (auto simp: pj_go_step_def Let_def split: if_splits)
      have pj: "pjF (p\<lparr>p_pj := s'\<rparr>)"
        using GCb gi by (intro pjF_update [OF ok i]) (auto simp: s' setPhase_gos setPhase_fields)
      have t': "taskF (w_task w')" using tOk by (simp add: w' storeBytes_def taskF_def)
      from inv pj t' notpre cb show ?thesis
        by (simp add: invF_def w' storeBytes_def logF_def preF_def totalsF_def)
    next
      case kone
      with st i GCb wcb have s': "s' = setPhase i (GCb z fd bd (Suc k)) ?s"
          and w': "w' = storeFiles (fd + int (length (p_dirJobs p))) w"
        by (auto simp: pj_go_step_def Let_def split: if_splits)
      have pj: "pjF (p\<lparr>p_pj := s'\<rparr>)"
        using GCb gi by (intro pjF_update [OF ok i]) (auto simp: s' setPhase_gos setPhase_fields)
      have t': "taskF (w_task w')"
        using fdn files by (simp add: w' storeFiles_def taskF_def)
      from inv pj t' notpre cb show ?thesis
        by (simp add: invF_def w' storeFiles_def logF_def preF_def totalsF_def)
    next
      case kmore
      with st i GCb wcb have s': "s' = setPhase i (GDone (Succeeded z)) ?s" and w': "w' = w"
        by (auto simp: pj_go_step_def Let_def split: if_splits)
      have "pjF (p\<lparr>p_pj := s'\<rparr>)"
        using GCb by (intro pjF_update [OF ok i]) (auto simp: s' setPhase_gos setPhase_fields)
      with same w' show ?thesis by simp
    qed
  next
    case (GDone out)
    with st i show ?thesis by (simp add: pj_go_step_def Let_def)
  qed
qed

lemma invF_go:
  assumes inv: "invF (p, w)"
    and st: "pj_go_step (ctxCancelled (w_task w)) (w_exec env p) (w_cb p) i x (p_pj p, w) = Some (s', w')"
  shows "invF (p\<lparr>p_pj := s'\<rparr>, w')"
proof (cases "p_hasCb p")
  case True
  from invF_go_cb [OF inv True st] show ?thesis .
next
  case False
  then have "w_cb p = None" by (simp add: w_cb_def)
  with st have "pj_go_step (ctxCancelled (w_task w)) (w_exec env p) None i x (p_pj p, w) = Some (s', w')"
    by simp
  from go_step_nocb [OF this] have tw: "w_task w' = w_task w" and lw: "w_log w' = w_log w"
    by simp_all
  from inv lw have "logF w'" by (simp add: invF_def logF_def)
  from invF_same_task [OF inv tw this, of "p\<lparr>p_pj := s'\<rparr>"] False show ?thesis by simp
qed

lemma invF_notify:
  assumes "invF (p, w)" shows "invF (p, w_notify now w)"
proof -
  from assms have l: "logF w" and t: "taskF (w_task w)" by (simp_all add: invF_def)
  from assms logF_notify [OF l t, of now] show ?thesis
    by (simp add: invF_def w_notify_fields taskF_notify preF_def totalsF_def notifyTask_task)
qed

lemma invF_moved:
  assumes "invF (p, w)" and "w_task w' = w_task w" and "logF w'"
    and "\<not> pre (p_pc p')" and "p_hasCb p' \<longrightarrow> pjF p'"
    and "p_fileJobs p' = p_fileJobs p" and "p_dirJobs p' = p_dirJobs p"
  shows "invF (p', w')"
  using assms by (auto simp: invF_def preF_def totalsF_def pre_def)

lemma invF_init: "invF (proc_init, world_init (newTask i ty src dst nm) ch)"
  by (simp add: invF_def proc_init_def world_init_def newTask_def zeroProgress_def logF_def
      taskF_def preF_def totalsF_def pre_def)

lemma invF_start:
  assumes inv: "invF pw" and pc: "p_pc (fst pw) = PStart"
  shows "invF (start_step env now lookErr pw)"
proof -
  obtain p w where pw: "pw = (p, w)" by (cases pw)
  let ?t = "w_task w"
  from inv pc pw have zero: "CompletedFiles (Progress ?t) = 0"
      and nocb: "\<not> p_hasCb p" and nil: "p_fileJobs p = []" "p_dirJobs p = []"
      and l: "logF w" and tk: "taskF ?t"
    by (simp_all add: invF_def preF_def pre_def)
  show ?thesis
  proof (cases "ctxCancelled ?t")
    case True
    let ?p = "p\<lparr>p_pc := PDone, p_final := Some (snd (notifyTask now (?t\<lparr>State := TaskCancelled\<rparr>)))\<rparr>"
    let ?w = "w\<lparr>w_task := ?t\<lparr>State := TaskCancelled\<rparr>\<rparr>"
    from inv pw l tk nocb nil have "invF (?p, ?w)"
      by (simp add: invF_def logF_def taskF_def preF_def totalsF_def pre_def)
    from invF_notify [OF this] True pw show ?thesis by (simp add: start_step_def Let_def)
  next
    case False
    note nc = False
    show ?thesis
    proof (cases "usesRsync (e_settings env) (Type ?t)")
      case True
      let ?p = "p\<lparr>p_engine := NewTransferEngine (e_settings env) lookErr, p_useRsync := True,
          p_pc := PEngine\<rparr>"
      let ?w = "w\<lparr>w_task := ?t\<lparr>totalFiles := 1, totalSize := 0, taskJobs := [wholeDirJob ?t],
          State := TaskTransferring\<rparr>\<rparr>"
      from inv pw l zero nocb nil have "invF (?p, ?w)"
        by (simp add: invF_def logF_def taskF_def preF_def totalsF_def pre_def)
      from invF_notify [OF this] True nc pw show ?thesis by (simp add: start_step_def Let_def)
    next
      case False
      let ?p = "p\<lparr>p_engine := NewTransferEngine (e_settings env) lookErr, p_useRsync := False,
          p_pc := PScan\<rparr>"
      let ?w = "w\<lparr>w_task := ?t\<lparr>State := TaskScanning\<rparr>\<rparr>"
      from inv pw l tk zero nocb nil have "invF (?p, ?w)"
        by (simp add: invF_def logF_def taskF_def preF_def totalsF_def pre_def)
      from invF_notify [OF this] False nc pw show ?thesis by (simp add: start_step_def Let_def)
    qed
  qed
qed

lemma invF_engine:
  assumes inv: "invF pw" and pc: "p_pc (fst pw) = PEngine"
  shows "invF (engine_step env os pw)"
proof -
  obtain p w where pw: "pw = (p, w)" by (cases pw)
  from inv pw have l: "logF w" by (simp add: invF_def)
  from inv pw have cb: "p_hasCb p \<longrightarrow> pjF p" by (simp add: invF_def)
  from inv pw have i: "invF (p, w)" by simp
  show ?thesis
  proof (cases "engine_UploadFile (p_engine p) (e_cfg env) os (Source (w_task w)) (Dest (w_task w))")
    case (Inl e)
    have "invF (p\<lparr>p_result := Some e, p_pc := PFinish\<rparr>, w)"
      using l cb by (intro invF_moved [OF i]) (simp_all add: pre_def pjF_def)
    with Inl pw show ?thesis by (simp add: engine_step_def Let_def)
  next
    case (Inr c)
    have "invF (p\<lparr>p_pc := PRsyncRun, p_reader := (p_engine p = RsyncEngine)\<rparr>,
        w\<lparr>w_calls := w_calls w @ [c]\<rparr>)"
      using l cb by (intro invF_moved [OF i]) (simp_all add: pre_def pjF_def logF_def)
    with Inr pw show ?thesis by (simp add: engine_step_def Let_def)
  qed
qed

lemma invF_scan:
  assumes inv: "invF pw" and pc: "p_pc (fst pw) = PScan"
    and st: "scan_step env inp pw = Some pw'"
  shows "invF pw'"
proof -
  obtain p w where pw: "pw = (p, w)" by (cases pw)
  from st pw obtain r where pw': "pw' = (scanned r p, w)"
    by (auto simp: scan_step_def Let_def split: TaskType.splits minput.splits)
  from inv pc pw show ?thesis
    by (auto simp: pw' invF_def scanned_def preF_def totalsF_def pre_def pjF_def)
qed

lemma split_lengthsF:
  "int (length (filter IsDir js)) + int (length (filter (\<lambda>j. \<not> IsDir j) js)) = int (length js)"
  using sum_length_filter_compl [of IsDir js] by simp

lemma invF_after_scan:
  assumes inv: "invF pw" and pc: "p_pc (fst pw) = PScanSend"
  shows "invF (after_scan now pw)"
proof -
  obtain p w where pw: "pw = (p, w)" by (cases pw)
  let ?t = "w_task w"
  from inv pc pw have zero: "CompletedFiles (Progress ?t) = 0"
      and nocb: "\<not> p_hasCb p" and nil: "p_fileJobs p = []" "p_dirJobs p = []"
      and l: "logF w" and tk: "taskF ?t" and nr: "\<not> p_useRsync p"
      and tot: "totalsF p ?t"
    by (simp_all add: invF_def preF_def pre_def)
  show ?thesis
  proof (cases "p_scanErr p")
    case (Some e)
    let ?w = "w\<lparr>w_task := ?t\<lparr>State := TaskFailed, taskErr := Some e\<rparr>\<rparr>"
    from inv pw l tk nocb nil tot pc have "invF (p\<lparr>p_pc := PFinish\<rparr>, ?w)"
      by (auto simp: invF_def logF_def taskF_def preF_def totalsF_def pre_def)
    from invF_notify [OF this] Some pw show ?thesis by (simp add: after_scan_def Let_def)
  next
    case None
    let ?task = "?t\<lparr>totalFiles := int (length (p_jobs p)), totalSize := p_total p,
        taskJobs := p_jobs p, State := TaskTransferring\<rparr>"
    let ?p = "p\<lparr>p_monitor := True, p_dirJobs := filter IsDir (p_jobs p),
        p_fileJobs := filter (\<lambda>j. \<not> IsDir j) (p_jobs p)\<rparr>"
    have tk': "taskF ?task" using zero by (simp add: taskF_def)
    have tot': "totalsF ?p ?task"
      using split_lengthsF [of "p_jobs p"] by (simp add: totalsF_def)
    show ?thesis
    proof (cases "0 < length (filter IsDir (p_jobs p))")
      case True
      have "invF (?p\<lparr>p_pc := PDirSend\<rparr>, w\<lparr>w_task := ?task\<rparr>)"
        using l tk' tot' nocb
        by (simp add: invF_def logF_def preF_def totalsF_def pre_def)
      from invF_notify [OF this] None True nr pw show ?thesis
        by (simp add: after_scan_def Let_def)
    next
      case False
      let ?q = "?p\<lparr>p_pj := pj_init (p_fileJobs ?p), p_hasCb := True, p_pc := PFiles\<rparr>"
      have "pjF ?q" by (rule pjF_init) simp
      then have "invF (?q, w\<lparr>w_task := ?task\<rparr>)"
        using l tk' tot'
        by (simp add: invF_def logF_def preF_def totalsF_def pre_def)
      from invF_notify [OF this] None False nr pw show ?thesis
        by (simp add: after_scan_def Let_def)
    qed
  qed
qed

lemma invF_send:
  assumes inv: "invF (p, w)" and s: "w_send (logSnap i st line) w = Some w'"
    and np: "\<not> pre (p_pc p')" and cb: "p_hasCb p' \<longrightarrow> pjF p'"
    and fj: "p_fileJobs p' = p_fileJobs p" and dj: "p_dirJobs p' = p_dirJobs p"
  shows "invF (p', w')"
proof -
  from inv have l: "logF w" by (simp add: invF_def)
  from s have t: "w_task w' = w_task w" by (auto simp: w_send_def split: if_splits)
  from invF_moved [OF inv t logF_send [OF l s] np cb fj dj] show ?thesis .
qed

lemma invF_scan_send:
  assumes inv: "invF (p, w)" and s: "w_send (logSnap i st line) w = Some w'"
  shows "invF (p\<lparr>p_sends := cs\<rparr>, w')"
proof -
  from inv have l: "logF w" by (simp add: invF_def)
  from s have t: "w_task w' = w_task w" by (auto simp: w_send_def split: if_splits)
  from inv t logF_send [OF l s] show ?thesis
    by (auto simp: invF_def preF_def totalsF_def pjF_def)
qed

lemma invF_loop_phase:
  assumes inv: "invF pw" and np: "\<not> pre (p_pc (fst pw))"
    and s: "pj_loop_step conc c (p_pj (fst pw)) = Some s"
  shows "invF (fst pw\<lparr>p_pj := s\<rparr>, snd pw)"
proof -
  from inv have i: "invF (fst pw, snd pw)" by simp
  then have l: "logF (snd pw)" and cb: "p_hasCb (fst pw) \<longrightarrow> pjF (fst pw)"
    by (simp_all add: invF_def)
  from l np pjF_loop [OF _ s] cb show ?thesis
    by (intro invF_moved [OF i]) simp_all
qed

lemma invF_dirs:
  assumes inv: "invF pw" and st: "dirs_step pw = Some pw'"
    and pc: "p_pc (fst pw) = PDirs"
  shows "invF pw'"
proof -
  obtain p w where pw: "pw = (p, w)" by (cases pw)
  from inv pw have i: "invF (p, w)" by simp
  then have l: "logF w" and cb: "p_hasCb p \<longrightarrow> pjF p" by (simp_all add: invF_def)
  show ?thesis
  proof (cases "\<exists>r. pj_loop (p_pj p) = LReturned r")
    case True
    then obtain r where r: "pj_loop (p_pj p) = LReturned r" ..
    show ?thesis
    proof (cases r)
      case None
      let ?q = "p\<lparr>p_pj := pj_init (p_fileJobs p), p_hasCb := True, p_pc := PFiles\<rparr>"
      have "pjF ?q" by (rule pjF_init) simp
      with l have "invF (?q, w)" by (intro invF_moved [OF i]) (simp_all add: pre_def)
      with st pw r None show ?thesis by (simp add: dirs_step_def Let_def)
    next
      case (Some e)
      from l cb have "invF (p\<lparr>p_result := r, p_pc := PFinish\<rparr>, w)"
        by (intro invF_moved [OF i]) (simp_all add: pre_def pjF_def)
      with st pw r Some show ?thesis by (simp add: dirs_step_def Let_def)
    qed
  next
    case False
    with st pw obtain s where s: "pj_loop_step fileQueueConcurrency (ctxCancelled (w_task w)) (p_pj p) = Some s"
        and pw': "pw' = (p\<lparr>p_pj := s\<rparr>, w)"
      by (cases "pj_loop (p_pj p)") (auto simp: dirs_step_def Let_def)
    from pc pw have "\<not> pre (p_pc (fst pw))" by (simp add: pre_def)
    from invF_loop_phase [OF inv this, of fileQueueConcurrency "ctxCancelled (w_task w)" s] s pw pw'
    show ?thesis by simp
  qed
qed

lemma invF_files:
  assumes inv: "invF pw" and st: "files_step pw = Some pw'"
    and pc: "p_pc (fst pw) = PFiles"
  shows "invF pw'"
proof -
  obtain p w where pw: "pw = (p, w)" by (cases pw)
  from inv pw have i: "invF (p, w)" by simp
  then have l: "logF w" and cb: "p_hasCb p \<longrightarrow> pjF p" by (simp_all add: invF_def)
  show ?thesis
  proof (cases "\<exists>r. pj_loop (p_pj p) = LReturned r")
    case True
    then obtain r where r: "pj_loop (p_pj p) = LReturned r" ..
    from l cb have "invF (p\<lparr>p_result := r, p_stopClosed := True, p_pc := PFinish\<rparr>, w)"
      by (intro invF_moved [OF i]) (simp_all add: pre_def pjF_def)
    with st pw r show ?thesis by (simp add: files_step_def Let_def)
  next
    case False
    with st pw obtain s where s: "pj_loop_step fileQueueConcurrency (ctxCancelled (w_task w)) (p_pj p) = Some s"
        and pw': "pw' = (p\<lparr>p_pj := s\<rparr>, w)"
      by (cases "pj_loop (p_pj p)") (auto simp: files_step_def Let_def)
    from pc pw have "\<not> pre (p_pc (fst pw))" by (simp add: pre_def)
    from invF_loop_phase [OF inv this, of fileQueueConcurrency "ctxCancelled (w_task w)" s] s pw pw'
    show ?thesis by simp
  qed
qed

lemma taskF_finish: "taskF t \<Longrightarrow> taskF (finishTask r t)"
  by (cases r) (simp_all add: taskF_def finishTask_def)

lemma finishTask_totalFiles: "totalFiles (finishTask r t) = totalFiles t"
  by (cases r) (simp_all add: finishTask_def)

lemma invF_finish:
  assumes inv: "invF pw" and pc: "p_pc (fst pw) = PFinish"
  shows "invF (fst pw\<lparr>p_pc := PDone, p_final := x\<rparr>,
           w_notify now (snd pw\<lparr>w_task := finishTask (p_result (fst pw)) (w_task (snd pw))\<rparr>))"
proof -
  from inv have "invF (fst pw\<lparr>p_pc := PDone, p_final := x\<rparr>,
      snd pw\<lparr>w_task := finishTask (p_result (fst pw)) (w_task (snd pw))\<rparr>)"
    by (auto simp: invF_def logF_def taskF_finish preF_def totalsF_def pre_def
        pjF_def finishTask_totalFiles)
  from invF_notify [OF this] show ?thesis .
qed

lemma invF_main:
  assumes inv: "invF pw" and st: "main_step env inp pw = Some pw'"
  shows "invF pw'"
proof (cases "p_pc (fst pw)")
  case PStart
  with st obtain now lookErr where "pw' = start_step env now lookErr pw"
    by (auto simp: main_step_def Let_def split: minput.splits)
  with invF_start [OF inv PStart] show ?thesis by simp
next
  case PEngine
  with st obtain os where "pw' = engine_step env os pw"
    by (auto simp: main_step_def Let_def split: minput.splits)
  with invF_engine [OF inv PEngine] show ?thesis by simp
next
  case PRsyncRun
  with st obtain r where pw': "pw' = (fst pw\<lparr>p_result := r, p_pc := PFinish\<rparr>, snd pw)"
    by (auto simp: main_step_def Let_def split: minput.splits)
  from inv have i: "invF (fst pw, snd pw)" by simp
  from inv have "invF (fst pw\<lparr>p_result := r, p_pc := PFinish\<rparr>, snd pw)"
    by (intro invF_moved [OF i]) (simp_all add: invF_def pre_def pjF_def)
  with pw' show ?thesis by simp
next
  case PScan
  with st have "scan_step env inp pw = Some pw'" by (simp add: main_step_def Let_def)
  from invF_scan [OF inv PScan this] show ?thesis .
next
  case PScanSend
  from inv have i: "invF (fst pw, snd pw)" by simp
  from st PScanSend consider
      (send) c cs w' where "p_sends (fst pw) = c # cs"
        "w_send (logSnap (ID (w_task (snd pw))) TaskScanning (scanLine c)) (snd pw) = Some w'"
        "pw' = (fst pw\<lparr>p_sends := cs\<rparr>, w')"
    | (go) now where "pw' = after_scan now pw"
    by (auto simp: main_step_def Let_def split: minput.splits list.splits if_splits)
  then show ?thesis
  proof cases
    case send
    from invF_scan_send [OF i send(2)] send(3) show ?thesis by simp
  next
    case go
    with invF_after_scan [OF inv PScanSend] show ?thesis by simp
  qed
next
  case PDirSend
  from inv have i: "invF (fst pw, snd pw)" by simp
  from st PDirSend obtain w' where
      s: "w_send (logSnap (ID (w_task (snd pw))) TaskTransferring
            (dirsLine (length (p_dirJobs (fst pw))))) (snd pw) = Some w'"
      and pw': "pw' = (fst pw\<lparr>p_pj := pj_init (p_dirJobs (fst pw)), p_hasCb := False,
                         p_pc := PDirs\<rparr>, w')"
    by (auto simp: main_step_def Let_def split: minput.splits)
  have "invF (fst pw\<lparr>p_pj := pj_init (p_dirJobs (fst pw)), p_hasCb := False, p_pc := PDirs\<rparr>, w')"
    by (rule invF_send [OF i s]) (simp_all add: pre_def)
  with pw' show ?thesis by simp
next
  case PDirs
  with st have "dirs_step pw = Some pw'" by (simp add: main_step_def Let_def split: minput.splits)
  from invF_dirs [OF inv this PDirs] show ?thesis .
next
  case PFiles
  with st have "files_step pw = Some pw'" by (simp add: main_step_def Let_def split: minput.splits)
  from invF_files [OF inv this PFiles] show ?thesis .
next
  case PFinish
  with st obtain now where "pw' = (fst pw\<lparr>p_pc := PDone,
      p_final := Some (snd (notifyTask now (finishTask (p_result (fst pw)) (w_task (snd pw)))))\<rparr>,
      w_notify now (snd pw\<lparr>w_task := finishTask (p_result (fst pw)) (w_task (snd pw))\<rparr>))"
    by (auto simp: main_step_def Let_def split: minput.splits)
  with invF_finish [OF inv PFinish] show ?thesis by simp
next
  case PDone
  with st show ?thesis by (simp add: main_step_def Let_def)
qed

lemma invF_step:
  assumes inv: "invF pw" and st: "step env a pw = Some pw'"
  shows "invF pw'"
proof (cases a)
  case ACancel
  with st have pw': "pw' = (fst pw, snd pw\<lparr>w_task := cancelIfLive (w_task (snd pw))\<rparr>)"
    by (simp add: step_def Let_def)
  from inv have "invF (fst pw, snd pw\<lparr>w_task := cancelIfLive (w_task (snd pw))\<rparr>)"
    by (auto simp: invF_def cancelIfLive_def logF_def taskF_def preF_def totalsF_def)
  with pw' show ?thesis by simp
next
  case ARecv
  with st obtain xs where pw': "pw' = (fst pw, snd pw\<lparr>w_chan := (w_chan (snd pw))\<lparr>buf := xs\<rparr>\<rparr>)"
    by (auto simp: step_def Let_def split: list.splits)
  from inv have "invF (fst pw, snd pw\<lparr>w_chan := (w_chan (snd pw))\<lparr>buf := xs\<rparr>\<rparr>)"
    by (simp add: invF_def logF_def)
  with pw' show ?thesis by simp
next
  case (AEnvSend x)
  with st have pw': "pw' = (fst pw, snd pw\<lparr>w_chan := push x (w_chan (snd pw))\<rparr>)"
    by (auto simp: step_def Let_def split: if_splits)
  from inv have "invF (fst pw, snd pw\<lparr>w_chan := push x (w_chan (snd pw))\<rparr>)"
    by (simp add: invF_def logF_def)
  with pw' show ?thesis by simp
next
  case (AMain inp)
  with st have "main_step env inp pw = Some pw'" by (simp add: step_def Let_def)
  from invF_main [OF inv this] show ?thesis .
next
  case (ATick now)
  with st have pw': "pw' = (fst pw, w_notify now (snd pw))"
    by (auto simp: step_def Let_def split: if_splits)
  from inv have "invF (fst pw, snd pw)" by simp
  from invF_notify [OF this] pw' show ?thesis by simp
next
  case AMonExit
  with st have pw': "pw' = (fst pw\<lparr>p_monitor := False\<rparr>, snd pw)"
    by (auto simp: step_def Let_def split: if_splits)
  from inv have "invF (fst pw\<lparr>p_monitor := False\<rparr>, snd pw)"
    by (auto simp: invF_def preF_def totalsF_def pjF_def)
  with pw' show ?thesis by simp
next
  case (AReader line)
  from inv have i: "invF (fst pw, snd pw)" by simp
  show ?thesis
  proof (cases "line = []")
    case True
    with st AReader have "pw' = pw" by (auto simp: step_def Let_def split: if_splits)
    with inv show ?thesis by simp
  next
    case False
    with st AReader obtain w' where
        s: "w_send (logSnap (ID (w_task (snd pw))) (State (w_task (snd pw))) line) (snd pw) = Some w'"
        and pw': "pw' = (fst pw, w')"
      by (auto simp: step_def Let_def split: if_splits)
    from invF_scan_send [OF i s, of "p_sends (fst pw)"] pw' show ?thesis by simp
  qed
next
  case AReaderExit
  with st have pw': "pw' = (fst pw\<lparr>p_reader := False\<rparr>, snd pw)"
    by (auto simp: step_def Let_def split: if_splits)
  from inv have "invF (fst pw\<lparr>p_reader := False\<rparr>, snd pw)"
    by (auto simp: invF_def preF_def totalsF_def pjF_def)
  with pw' show ?thesis by simp
next
  case (AGo i os r)
  from inv have iv: "invF (fst pw, snd pw)" by simp
  from st AGo obtain s' w' where
      g: "pj_go_step (ctxCancelled (w_task (snd pw))) (w_exec env (fst pw)) (w_cb (fst pw)) i (os, r)
            (p_pj (fst pw), snd pw) = Some (s', w')"
      and pw': "pw' = (fst pw\<lparr>p_pj := s'\<rparr>, w')"
    by (auto simp: step_def Let_def)
  from invF_go [OF iv g] pw' show ?thesis by simp
qed

lemma invF_run:
  "invF pw \<Longrightarrow> run env sched pw = Some pw' \<Longrightarrow> invF pw'"
proof (induction sched arbitrary: pw)
  case Nil
  then show ?case by simp
next
  case (Cons a sched)
  from Cons.prems(2) obtain pwa where s: "step env a pw = Some pwa"
      and r: "run env sched pwa = Some pw'"
    by (auto split: option.splits)
  from invF_step [OF Cons.prems(1) s] have "invF pwa" .
  from Cons.IH [OF this r] show ?case .
qed

text \<open>
  Claim C8, as stated, fails: the total of the task is the 64-bit sum of the sizes and
  wraps. In the upload below (files of 10, \<open>2^63 - 1\<close> and \<open>2^63 - 1\<close> bytes) the
  total is 8, and once the first file is copied a snapshot carries 10 bytes of 8, with
  percentage 125.
\<close>

theorem C8_sparse_files_exceed_total:
  "map_option (\<lambda>pw. map (\<lambda>x. (PState x, CompletedFiles x, TotalFiles x, BytesTransferred x,
            TotalSize x, Percentage x)) (sent (snd pw)))
     (run (exEnv True) exSparseSchedule
        (exStart (newTask 1 TaskUploadDirectory ''/tmp/t'' ''/home/u/t'' ''t'') 16))
   = Some [(TaskScanning, 0, 0, 0, 0, 0), (TaskTransferring, 0, 4, 0, 8, 0),
           (TaskTransferring, 0, 0, 0, 0, 0), (TaskTransferring, 0, 4, 10, 8, 125)]"
  by code_simp

text \<open>
  Claim C8, amended. Every snapshot emitted for a task has
  \<open>completedFiles \<le> totalFiles\<close>; and when the sizes the file system reports are not
  negative and add up to less than \<open>2^63\<close>, every snapshot with \<open>totalBytes > 0\<close> has
  \<open>bytesTransferred \<le> totalBytes\<close> and a percentage of at most 100. The snapshots are
  the one \<open>QueueTask\<close> publishes for the new task and every snapshot
  \<open>processTask\<close>, its monitor, its reader and the callback of \<open>ProcessJobs\<close> offer
  to the out-channel, delivered or dropped, under every schedule (cancellation and
  failures included).
\<close>

theorem C8_snapshots_within_totals:
  assumes r: "run env sched (proc_init, world_init (newTask i ty src dst nm) ch) = Some (p, w)"
  shows "(\<forall>x \<in> set (snd (notifyTask now (newTask i ty src dst nm)) # map fst (w_log w)).
            CompletedFiles x \<le> TotalFiles x)
    \<and> ((\<forall>a \<in> set sched. sizesOk a) \<longrightarrow>
         (\<forall>x \<in> set (snd (notifyTask now (newTask i ty src dst nm)) # map fst (w_log w)).
            0 <s TotalSize x \<longrightarrow> BytesTransferred x \<le>s TotalSize x \<and> Percentage x \<le> 100))"
proof
  from invF_run [OF invF_init r] have "logF w" by (simp add: invF_def)
  moreover have "taskF (newTask i ty src dst nm)"
    by (simp add: taskF_def newTask_def zeroProgress_def)
  then have "snapF (snd (notifyTask now (newTask i ty src dst nm)))" by (rule snapF_notify)
  ultimately show "\<forall>x \<in> set (snd (notifyTask now (newTask i ty src dst nm)) # map fst (w_log w)).
      CompletedFiles x \<le> TotalFiles x"
    by (auto simp: logF_def snapF_def)
next
  show "(\<forall>a \<in> set sched. sizesOk a) \<longrightarrow>
      (\<forall>x \<in> set (snd (notifyTask now (newTask i ty src dst nm)) # map fst (w_log w)).
         0 <s TotalSize x \<longrightarrow> BytesTransferred x \<le>s TotalSize x \<and> Percentage x \<le> 100)"
  proof
    assume sz: "\<forall>a \<in> set sched. sizesOk a"
    from inv8_run [OF inv8_init r sz] have "logOk w" by (simp add: inv8_def)
    moreover have "taskOk (newTask i ty src dst nm)"
      by (simp add: taskOk_def newTask_def zeroProgress_def word_sless_alt)
    then have "snapOk (snd (notifyTask now (newTask i ty src dst nm)))" by (rule snapOk_notify)
    ultimately show "\<forall>x \<in> set (snd (notifyTask now (newTask i ty src dst nm)) # map fst (w_log w)).
        0 <s TotalSize x \<longrightarrow> BytesTransferred x \<le>s TotalSize x \<and> Percentage x \<le> 100"
      by (auto simp: logOk_def snapOk_def)
  qed
qed

theorem C8_snapshots_within_totals_witness:
  "list_all sizesOk exTickSchedule
   \<and> (\<exists>p w. run (exEnv True) exTickSchedule
          (proc_init, world_init (newTask 1 TaskUploadFile ''/tmp/a.txt'' ''/home/u/a.txt'' ''a.txt'')
             \<lparr>buf = [], cap = 16\<rparr>) = Some (p, w)
        \<and> map (\<lambda>x. (PState x, CompletedFiles x, TotalFiles x, BytesTransferred x, TotalSize x,
                     Percentage x)) (sent w)
          = [(TaskScanning, 0, 0, 0, 0, 0), (TaskTransferring, 0, 1, 0, 6, 0),
             (TaskTransferring, 0, 1, 6, 6, 100), (TaskTransferring, 1, 1, 6, 6, 100),
             (TaskCompleted, 1, 1, 6, 6, 100)]
        \<and> (\<forall>x \<in> set (snd (notifyTask 0 (newTask 1 TaskUploadFile ''/tmp/a.txt'' ''/home/u/a.txt''
                          ''a.txt'')) # map fst (w_log w)).
              CompletedFiles x \<le> TotalFiles x)
        \<and> (\<forall>x \<in> set (snd (notifyTask 0 (newTask 1 TaskUploadFile ''/tmp/a.txt'' ''/home/u/a.txt''
                          ''a.txt'')) # map fst (w_log w)).
              0 <s TotalSize x \<longrightarrow> BytesTransferred x \<le>s TotalSize x \<and> Percentage x \<le> 100))"
proof -
  let ?r = "run (exEnv True) exTickSchedule
      (proc_init, world_init (newTask 1 TaskUploadFile ''/tmp/a.txt'' ''/home/u/a.txt'' ''a.txt'')
         \<lparr>buf = [], cap = 16\<rparr>)"
  have sz: "list_all sizesOk exTickSchedule" by code_simp
  have "map_option (\<lambda>pw. map (\<lambda>x. (PState x, CompletedFiles x, TotalFiles x, BytesTransferred x,
          TotalSize x, Percentage x)) (sent (snd pw))) ?r
      = Some [(TaskScanning, 0, 0, 0, 0, 0), (TaskTransferring, 0, 1, 0, 6, 0),
             (TaskTransferring, 0, 1, 6, 6, 100), (TaskTransferring, 1, 1, 6, 6, 100),
             (TaskCompleted, 1, 1, 6, 6, 100)]"
    by code_simp
  then obtain p w where r: "?r = Some (p, w)"
      and m: "map (\<lambda>x. (PState x, CompletedFiles x, TotalFiles x, BytesTransferred x, TotalSize x,
                     Percentage x)) (sent w)
          = [(TaskScanning, 0, 0, 0, 0, 0), (TaskTransferring, 0, 1, 0, 6, 0),
             (TaskTransferring, 0, 1, 6, 6, 100), (TaskTransferring, 1, 1, 6, 6, 100),
             (TaskCompleted, 1, 1, 6, 6, 100)]"
    by (cases ?r) auto
  from sz have all: "\<forall>a \<in> set exTickSchedule. sizesOk a" by (simp add: list_all_iff)
  from C8_snapshots_within_totals [OF r, of 0] all have
      f: "\<forall>x \<in> set (snd (notifyTask 0 (newTask 1 TaskUploadFile ''/tmp/a.txt'' ''/home/u/a.txt''
                          ''a.txt'')) # map fst (w_log w)).
              CompletedFiles x \<le> TotalFiles x"
      and b: "\<forall>x \<in> set (snd (notifyTask 0 (newTask 1 TaskUploadFile ''/tmp/a.txt'' ''/home/u/a.txt''
                          ''a.txt'')) # map fst (w_log w)).
              0 <s TotalSize x \<longrightarrow> BytesTransferred x \<le>s TotalSize x \<and> Percentage x \<le> 100"
    by blast+
  from sz r m f b show ?thesis
    by (intro conjI exI [of _ p] exI [of _ w])
qed

end
